theory Spec2Isabelle
  imports Main "HOL-Library.Multiset" "HOL-Library.Signed_Division" "HOL-Library.Monad_Syntax"
begin

section \<open>The static k-ary search index (src/src/static_index/kary_index.h)\<close>

text \<open>
  \<^verbatim>\<open>KAryIndex<KeyT, ValueT>\<close> is a class template: keys are any linearly ordered type
  (they are only compared), values are the 64-bit words the snapshot stores for a tuple.

  A read outside an array, or of an array cell or a field that was never assigned, is
  undefined behaviour in the source: the model returns \<open>None\<close> there, and \<open>None\<close>
  propagates to the caller. A call that does not return is \<open>None\<close> as well.
\<close>

subsection \<open>Machine integers\<close>

text \<open>
  Positions in the snapshot are \<^verbatim>\<open>int\<close> (32 bits, two's complement) in some places of
  the source and \<^verbatim>\<open>size_t\<close> (64 bits, unsigned) in others. The model keeps an
  \<^verbatim>\<open>int\<close> as an \<open>int\<close> between \<open>-2^31\<close> and \<open>2^31 - 1\<close> and a
  \<^verbatim>\<open>size_t\<close> as a \<open>nat\<close> below \<open>2^64\<close>, and writes out every place where
  the source leaves these ranges:

  \<^item> \<open>to_size_t x\<close> is the \<^verbatim>\<open>size_t\<close> that an expression of type
    \<^verbatim>\<open>size_t\<close> has when its value over the integers is \<open>x\<close>, and the conversion
    of the \<^verbatim>\<open>int\<close> \<open>x\<close> to \<^verbatim>\<open>size_t\<close>: \<open>x\<close> modulo \<open>2^64\<close>. In an
    expression that mixes the two types, such as
    \<^verbatim>\<open>begin_offset + step_offset * (i + 1)\<close>, the \<^verbatim>\<open>int\<close> is converted and the
    arithmetic is that of \<^verbatim>\<open>size_t\<close>.
  \<^item> \<open>to_int x\<close> is the \<^verbatim>\<open>int\<close> that a \<^verbatim>\<open>size_t\<close> expression with value
    \<open>x\<close> over the integers becomes when it is passed for a \<^verbatim>\<open>const int\<close>
    parameter, stored in an \<^verbatim>\<open>int\<close> variable or put into a
    \<^verbatim>\<open>std::pair<int, int>\<close>: its low 32 bits, read as a signed number.
  \<^item> \<open>int_result x\<close> is the result of an operation on two \<^verbatim>\<open>int\<close>s whose
    value over the integers is \<open>x\<close>: signed overflow is undefined behaviour.
\<close>

definition to_size_t :: "int \<Rightarrow> nat" where
  "to_size_t x = nat (x mod 2 ^ 64)"

definition to_int :: "int \<Rightarrow> int" where
  "to_int x = (x + 2 ^ 31) mod 2 ^ 32 - 2 ^ 31"

definition int_result :: "int \<Rightarrow> int option" where
  "int_result x = (if - (2 ^ 31) \<le> x \<and> x < 2 ^ 31 then Some x else None)"

subsection \<open>The index\<close>

datatype ('k, 'v) entry = Entry (key_f: 'k) (value_f: 'v)

record ('k, 'v) kary_index =
  table_f :: "('k, 'v) entry list"
  container_f :: "('k, 'v) entry list"
  size_f :: nat
  num_layers_f :: nat
  k_f :: nat
  key_min_f :: "'k option"
  key_max_f :: "'k option"
  inner_nodes_f :: "'k option list"

text \<open>
  A field \<^verbatim>\<open>x_\<close> of the source is \<open>x_f\<close> here.
  \<open>table_f\<close> is the data table behind \<^verbatim>\<open>table_ptr\<close>, its tuples in insertion order.
  \<open>size_f\<close>, \<open>num_layers_f\<close> and \<open>k_f\<close> are \<^verbatim>\<open>size_t\<close> members.
  \<open>key_min_f\<close> and \<open>key_max_f\<close> are \<open>None\<close> until \<^verbatim>\<open>reorganize\<close> assigns them;
  a cell of \<open>inner_nodes_f\<close> is \<open>None\<close> until it is written:
  \<^verbatim>\<open>new KeyT[inner_size]\<close> does not initialise, so the cell holds whatever the
  allocated memory held.
\<close>

datatype 'a outcome = Done 'a | AssertFailed string 'a | Undefined

text \<open>
  The constructor: \<^verbatim>\<open>ASSERT(k_ >= 2, ...)\<close>. The snapshot and the size are members
  of the base class \<^verbatim>\<open>BaseStaticIndex\<close>, whose header is not among the sources; they
  start empty and zero here (\<^verbatim>\<open>find\<close> returns at once on size zero).
\<close>

definition KAryIndex ::
  "('k, 'v) entry list \<Rightarrow> nat \<Rightarrow> nat \<Rightarrow> ('k, 'v) kary_index outcome" where
  "KAryIndex table_ptr num_layers k =
     (let ix = \<lparr>table_f = table_ptr, container_f = [], size_f = 0, num_layers_f = num_layers,
                k_f = k, key_min_f = None, key_max_f = None, inner_nodes_f = []\<rparr>
      in if k \<ge> 2 then Done ix
         else AssertFailed ''k must be larger than or equal to 2'' ix)"

subsection \<open>Array reads\<close>

text \<open>
  \<^verbatim>\<open>container_[i]\<close>, with \<open>i\<close> the value of the index; for an index of type
  \<^verbatim>\<open>size_t\<close> that value is not negative.
\<close>

definition container_at :: "('k, 'v) kary_index \<Rightarrow> int \<Rightarrow> ('k, 'v) entry option" where
  "container_at ix i =
     (if 0 \<le> i \<and> i < int (length (container_f ix)) then Some (container_f ix ! nat i)
      else None)"

definition inner_at :: "('k, 'v) kary_index \<Rightarrow> nat \<Rightarrow> 'k option" where
  "inner_at ix j = (if j < length (inner_nodes_f ix) then inner_nodes_f ix ! j else None)"

subsection \<open>The expressions for offsets and positions\<close>

text \<open>
  \<^verbatim>\<open>size_t step_offset = (end_offset - begin_offset) / k_\<close> with \<^verbatim>\<open>int\<close> offsets:
  the difference is an \<^verbatim>\<open>int\<close>, it is converted to \<^verbatim>\<open>size_t\<close> (a negative
  difference \<open>d\<close> becomes \<open>2^64 + d\<close>) and divided; division by zero is undefined
  behaviour.
\<close>

definition step_offset_of :: "nat \<Rightarrow> int \<Rightarrow> int \<Rightarrow> nat option" where
  "step_offset_of k begin_offset end_offset =
     (case int_result (end_offset - begin_offset) of
        None \<Rightarrow> None
      | Some d \<Rightarrow> if k = 0 then None else Some (to_size_t d div k))"

text \<open>\<^verbatim>\<open>k_ - 1\<close>, the bound of the loops over the pivots of a node.\<close>

definition k_minus_1 :: "nat \<Rightarrow> nat" where
  "k_minus_1 k = to_size_t (int k - 1)"

text \<open>
  \<^verbatim>\<open>begin_offset + step_offset * (i + 1)\<close>: as the index of a read of the snapshot
  (\<open>pivot_index\<close>) and as a component of the returned pair (\<open>pivot_offset\<close>).
\<close>

definition pivot_index :: "int \<Rightarrow> nat \<Rightarrow> nat \<Rightarrow> nat" where
  "pivot_index begin_offset step_offset i =
     to_size_t (begin_offset + int step_offset * (int i + 1))"

definition pivot_offset :: "int \<Rightarrow> nat \<Rightarrow> nat \<Rightarrow> int" where
  "pivot_offset begin_offset step_offset i =
     to_int (begin_offset + int step_offset * (int i + 1))"

text \<open>
  The offsets passed to the recursive calls, each a \<^verbatim>\<open>size_t\<close> expression passed for
  a \<^verbatim>\<open>const int\<close> parameter:
  \<^verbatim>\<open>begin_offset + step_offset - 1\<close>,
  \<^verbatim>\<open>begin_offset + step_offset * i + 1\<close>,
  \<^verbatim>\<open>begin_offset + step_offset * (i + 1) - 1\<close> and
  \<^verbatim>\<open>begin_offset + step_offset * (k_ - 1) + 1\<close>.
\<close>

definition first_child_end :: "int \<Rightarrow> nat \<Rightarrow> int" where
  "first_child_end begin_offset step_offset = to_int (begin_offset + int step_offset - 1)"

definition child_begin :: "int \<Rightarrow> nat \<Rightarrow> nat \<Rightarrow> int" where
  "child_begin begin_offset step_offset i = to_int (begin_offset + int step_offset * int i + 1)"

definition child_end :: "int \<Rightarrow> nat \<Rightarrow> nat \<Rightarrow> int" where
  "child_end begin_offset step_offset i =
     to_int (begin_offset + int step_offset * (int i + 1) - 1)"

definition last_child_begin :: "nat \<Rightarrow> int \<Rightarrow> nat \<Rightarrow> int" where
  "last_child_begin k begin_offset step_offset =
     to_int (begin_offset + int step_offset * (int k - 1) + 1)"

text \<open>
  The positions in the inner-node array, all \<^verbatim>\<open>size_t\<close>:
  \<^verbatim>\<open>new_base_pos = (base_pos + 1) * k_ - 1\<close>, \<^verbatim>\<open>new_dst_pos = dst_pos * k_\<close>,
  \<^verbatim>\<open>next_layer = curr_layer + 1\<close>, and the destinations
  \<^verbatim>\<open>new_dst_pos + i * (k_ - 1)\<close> and \<^verbatim>\<open>new_dst_pos + (k_ - 1) * (k_ - 1)\<close> of the
  middle children and the last child.
\<close>

definition new_base_pos_of :: "nat \<Rightarrow> nat \<Rightarrow> nat" where
  "new_base_pos_of k base_pos = to_size_t ((int base_pos + 1) * int k - 1)"

definition new_dst_pos_of :: "nat \<Rightarrow> nat \<Rightarrow> nat" where
  "new_dst_pos_of k dst_pos = to_size_t (int dst_pos * int k)"

definition next_layer_of :: "nat \<Rightarrow> nat" where
  "next_layer_of curr_layer = to_size_t (int curr_layer + 1)"

definition child_dst_pos :: "nat \<Rightarrow> nat \<Rightarrow> nat \<Rightarrow> nat" where
  "child_dst_pos k new_dst_pos i = to_size_t (int new_dst_pos + int i * (int k - 1))"

definition last_dst_pos :: "nat \<Rightarrow> nat \<Rightarrow> nat" where
  "last_dst_pos k new_dst_pos = to_size_t (int new_dst_pos + (int k - 1) * (int k - 1))"

subsection \<open>Construction of the inner nodes\<close>

text \<open>
  The construction writes into the array behind \<^verbatim>\<open>inner_nodes_\<close> and changes
  nothing else of the index, so the functions below take the index for reading and
  pass the array along.

  \<^verbatim>\<open>for (i = 0; i < k_ - 1; ++i)
    inner_nodes_[base_pos + dst_pos + i] = container_[begin_offset + step_offset * (i + 1)].key_\<close>,
  with \<open>pos\<close> for \<open>base_pos + dst_pos\<close>.
\<close>

function write_pivots ::
  "('k, 'v) kary_index \<Rightarrow> int \<Rightarrow> nat \<Rightarrow> nat \<Rightarrow> nat \<Rightarrow> 'k option list \<Rightarrow> 'k option list option"
  where
  "write_pivots ix begin_offset step_offset pos i inner =
     (if i < k_minus_1 (k_f ix) then
        (case container_at ix (int (pivot_index begin_offset step_offset i)) of
           None \<Rightarrow> None
         | Some en \<Rightarrow>
             if to_size_t (int pos + int i) < length inner then
               write_pivots ix begin_offset step_offset pos (i + 1)
                 (inner[to_size_t (int pos + int i) := Some (key_f en)])
             else None)
      else Some inner)"
  by pat_completeness auto
termination
  by (relation "measure (\<lambda>(ix, b, s, pos, i, inner). k_minus_1 (k_f ix) - i)") auto

text \<open>
  \<^verbatim>\<open>construct_inner_layers_internal\<close> calls itself for the first child, in a loop for
  the middle children, and for the last child. A call is either the function at a node
  (\<open>Node begin_offset end_offset base_pos dst_pos curr_layer\<close>) or the rest of the loop
  \<^verbatim>\<open>for (i = 1; i < k_ - 1; ++i) construct_inner_layers_internal(...)\<close> from \<open>i\<close> on
  (\<open>Middle_children begin_offset step_offset new_base_pos new_dst_pos next_layer i\<close>);
  \<open>construct_run\<close> runs a call.
\<close>

datatype construct_call =
    Node int int nat nat nat
  | Middle_children int nat nat nat nat nat

partial_function (option) construct_run ::
  "('k, 'v) kary_index \<Rightarrow> construct_call \<Rightarrow> 'k option list \<Rightarrow> 'k option list option"
  where
  "construct_run ix call inner =
     (case call of
        Node begin_offset end_offset base_pos dst_pos curr_layer \<Rightarrow>
          if begin_offset > end_offset then Some inner
          else
            do {
              step_offset \<leftarrow> step_offset_of (k_f ix) begin_offset end_offset;
              inner1 \<leftarrow> write_pivots ix begin_offset step_offset (base_pos + dst_pos) 0 inner;
              if num_layers_f ix = next_layer_of curr_layer then Some inner1
              else
                do {
                  inner2 \<leftarrow> construct_run ix
                              (Node begin_offset (first_child_end begin_offset step_offset)
                                 (new_base_pos_of (k_f ix) base_pos)
                                 (new_dst_pos_of (k_f ix) dst_pos) (next_layer_of curr_layer))
                              inner1;
                  inner3 \<leftarrow> construct_run ix
                              (Middle_children begin_offset step_offset
                                 (new_base_pos_of (k_f ix) base_pos)
                                 (new_dst_pos_of (k_f ix) dst_pos) (next_layer_of curr_layer) 1)
                              inner2;
                  construct_run ix
                    (Node (last_child_begin (k_f ix) begin_offset step_offset) end_offset
                       (new_base_pos_of (k_f ix) base_pos)
                       (last_dst_pos (k_f ix) (new_dst_pos_of (k_f ix) dst_pos))
                       (next_layer_of curr_layer))
                    inner3
                }
            }
      | Middle_children begin_offset step_offset new_base_pos new_dst_pos next_layer i \<Rightarrow>
          if i < k_minus_1 (k_f ix) then
            do {
              inner1 \<leftarrow> construct_run ix
                          (Node (child_begin begin_offset step_offset i)
                             (child_end begin_offset step_offset i)
                             new_base_pos (child_dst_pos (k_f ix) new_dst_pos i) next_layer)
                          inner;
              construct_run ix
                (Middle_children begin_offset step_offset new_base_pos new_dst_pos next_layer
                   (i + 1))
                inner1
            }
          else Some inner)"

declare construct_run.simps [code]

definition construct_inner_layers_internal ::
  "('k, 'v) kary_index \<Rightarrow> int \<Rightarrow> int \<Rightarrow> nat \<Rightarrow> nat \<Rightarrow> nat \<Rightarrow> 'k option list \<Rightarrow> 'k option list option"
  where
  "construct_inner_layers_internal ix begin_offset end_offset base_pos dst_pos curr_layer inner =
     construct_run ix (Node begin_offset end_offset base_pos dst_pos curr_layer) inner"

definition construct_children ::
  "('k, 'v) kary_index \<Rightarrow> int \<Rightarrow> nat \<Rightarrow> nat \<Rightarrow> nat \<Rightarrow> nat \<Rightarrow> nat \<Rightarrow> 'k option list \<Rightarrow> 'k option list option"
  where
  "construct_children ix begin_offset step_offset new_base_pos new_dst_pos next_layer i inner =
     construct_run ix
       (Middle_children begin_offset step_offset new_base_pos new_dst_pos next_layer i) inner"

text \<open>
  \<^verbatim>\<open>construct_inner_layers\<close>: the root node, written out in the source with
  \<^verbatim>\<open>size_t\<close> offsets, \<^verbatim>\<open>base_pos = k_ - 1\<close> and the children's destinations
  \<^verbatim>\<open>0\<close>, \<^verbatim>\<open>i * (k_ - 1)\<close> and \<^verbatim>\<open>(k_ - 1) * (k_ - 1)\<close>. Its loop over
  the middle children is \<open>construct_children\<close> with destination base \<open>0\<close>.
  \<^verbatim>\<open>size_t end_offset = this->size_ - 1\<close> wraps when the size is zero; the offsets
  become \<^verbatim>\<open>int\<close>s where they are passed to \<^verbatim>\<open>construct_inner_layers_internal\<close>.
\<close>

definition construct_inner_layers ::
  "('k, 'v) kary_index \<Rightarrow> 'k option list \<Rightarrow> 'k option list outcome" where
  "construct_inner_layers ix inner =
     (if \<not> num_layers_f ix \<noteq> 0 then AssertFailed ''number of layers cannot be 0'' inner
      else
        (let begin_offset = 0 :: nat;
             end_offset = to_size_t (int (size_f ix) - 1)
         in if k_f ix = 0 then Undefined
            else
              (let step_offset = to_size_t (int end_offset - int begin_offset) div k_f ix
               in case write_pivots ix (int begin_offset) step_offset 0 0 inner of
                    None \<Rightarrow> Undefined
                  | Some inner1 \<Rightarrow>
                      if num_layers_f ix = 1 then Done inner1
                      else
                        (let base_pos = k_minus_1 (k_f ix); next_layer = 1
                         in case
                              do {
                                inner2 \<leftarrow> construct_inner_layers_internal ix
                                            (to_int (int begin_offset))
                                            (first_child_end (int begin_offset) step_offset)
                                            base_pos 0 next_layer inner1;
                                inner3 \<leftarrow> construct_children ix (int begin_offset) step_offset
                                            base_pos 0 next_layer 1 inner2;
                                construct_inner_layers_internal ix
                                  (last_child_begin (k_f ix) (int begin_offset) step_offset)
                                  (to_int (int end_offset)) base_pos
                                  (last_dst_pos (k_f ix) 0) next_layer inner3
                              }
                            of None \<Rightarrow> Undefined | Some inner4 \<Rightarrow> Done inner4))))"

subsection \<open>reorganize\<close>

text \<open>
  Modelled from the spec: \<^verbatim>\<open>base_reorganize\<close> is declared in
  \<^verbatim>\<open>base_static_index.h\<close>, which is not among the sources. By sections 3 and 4.2 of
  the specification it replaces the snapshot by the tuples of the data table sorted by
  key, equal keys in insertion order, and sets the size to their number.
\<close>

definition base_reorganize :: "('k::linorder, 'v) kary_index \<Rightarrow> ('k, 'v) kary_index" where
  "base_reorganize ix =
     ix\<lparr>container_f := sort_key key_f (table_f ix), size_f := length (table_f ix)\<rparr>"

text \<open>
  \<^verbatim>\<open>size_t inner_node_size = std::pow(k_, num_layers_) - 1\<close>: the power is computed in
  double precision and the difference is converted to \<^verbatim>\<open>size_t\<close>. A double holds
  every whole number up to \<open>2^53\<close>, so up to there the result is \<open>k^L - 1\<close>. Above
  \<open>2^53\<close> the double is a rounded value, and from \<open>2^64\<close> on, as for the negative
  difference when the power is zero, the conversion is undefined behaviour; the model
  does not follow the rounding and gives no result (\<open>None\<close>) in all these cases.
\<close>

definition pow_minus_1 :: "nat \<Rightarrow> nat \<Rightarrow> nat option" where
  "pow_minus_1 k num_layers =
     (if 1 \<le> k ^ num_layers \<and> int (k ^ num_layers) \<le> 2 ^ 53 then Some (k ^ num_layers - 1)
      else None)"

text \<open>
  \<^verbatim>\<open>reorganize\<close>. The \<^verbatim>\<open>ASSERT\<close> macro is not among the sources; a failed
  assertion is the outcome \<open>AssertFailed\<close>, with the index as it is at that moment.
  The outcome \<open>Undefined\<close> stands for undefined behaviour and for the values of
  \<^verbatim>\<open>std::pow\<close> that the model does not follow. The source computes the power a second
  time for \<^verbatim>\<open>inner_size\<close>, with the same result. The fresh array is not initialised:
  all its cells are \<open>None\<close>.
\<close>

definition reorganize :: "('k::linorder, 'v) kary_index \<Rightarrow> ('k, 'v) kary_index outcome" where
  "reorganize ix0 =
     (let ix = base_reorganize ix0
      in case pow_minus_1 (k_f ix) (num_layers_f ix) of
           None \<Rightarrow> Undefined
         | Some inner_node_size \<Rightarrow>
             if \<not> inner_node_size < size_f ix then AssertFailed ''exceed maximum layers'' ix
             else
               (case (container_at ix 0,
                      container_at ix (int (to_size_t (int (size_f ix) - 1)))) of
                  (Some en_first, Some en_last) \<Rightarrow>
                    (let ix1 = ix\<lparr>key_min_f := Some (key_f en_first),
                                  key_max_f := Some (key_f en_last)\<rparr>
                     in if num_layers_f ix1 \<noteq> 0 then
                          (let inner_size = inner_node_size
                           in case construct_inner_layers ix1 (replicate inner_size None) of
                                Done inner \<Rightarrow> Done (ix1\<lparr>inner_nodes_f := inner\<rparr>)
                              | AssertFailed msg inner \<Rightarrow>
                                  AssertFailed msg (ix1\<lparr>inner_nodes_f := inner\<rparr>)
                              | Undefined \<Rightarrow> Undefined)
                        else Done (ix1\<lparr>inner_nodes_f := []\<rparr>))
                | _ \<Rightarrow> Undefined))"

subsection \<open>find: the loops\<close>

text \<open>\<^verbatim>\<open>for (size_t i = 0; i < this->size_; ++i) values.push_back(container_[i].value_)\<close>\<close>

function push_all ::
  "('k, 'v) kary_index \<Rightarrow> nat \<Rightarrow> 'v list \<Rightarrow> 'v list option" where
  "push_all ix i values =
     (if i < size_f ix then
        (case container_at ix (int i) of
           None \<Rightarrow> None
         | Some en \<Rightarrow> push_all ix (i + 1) (values @ [value_f en]))
      else Some values)"
  by pat_completeness auto
termination
  by (relation "measure (\<lambda>(ix, i, values). size_f ix - i)") auto

text \<open>
  The loop under \<^verbatim>\<open>// move left\<close>; \<^verbatim>\<open>offset_find_lhs\<close> is an \<^verbatim>\<open>int\<close>.
\<close>

function move_left ::
  "('k, 'v) kary_index \<Rightarrow> 'k \<Rightarrow> int \<Rightarrow> 'v list \<Rightarrow> 'v list option" where
  "move_left ix key offset_find_lhs values =
     (if offset_find_lhs \<ge> 0 then
        (case container_at ix offset_find_lhs of
           None \<Rightarrow> None
         | Some en \<Rightarrow>
             if key_f en = key then
               (case int_result (offset_find_lhs - 1) of
                  None \<Rightarrow> None
                | Some lhs \<Rightarrow> move_left ix key lhs (values @ [value_f en]))
             else Some values)
      else Some values)"
  by pat_completeness auto
termination
  by (relation "measure (\<lambda>(ix, key, l, values). nat (l + 1))")
     (auto simp: int_result_def split: if_splits)

text \<open>
  The loop under \<^verbatim>\<open>// move right\<close>. In \<^verbatim>\<open>offset_find_rhs <= this->size_ - 1\<close>
  the \<^verbatim>\<open>int\<close> on the left is converted to \<^verbatim>\<open>size_t\<close>.
\<close>

function move_right ::
  "('k, 'v) kary_index \<Rightarrow> 'k \<Rightarrow> int \<Rightarrow> 'v list \<Rightarrow> 'v list option" where
  "move_right ix key offset_find_rhs values =
     (if to_size_t offset_find_rhs \<le> to_size_t (int (size_f ix) - 1) then
        (case container_at ix offset_find_rhs of
           None \<Rightarrow> None
         | Some en \<Rightarrow>
             if key_f en = key then
               (case int_result (offset_find_rhs + 1) of
                  None \<Rightarrow> None
                | Some rhs \<Rightarrow> move_right ix key rhs (values @ [value_f en]))
             else Some values)
      else Some values)"
  by pat_completeness auto
termination
  by (relation "measure (\<lambda>(ix, key, r, values). nat (int (length (container_f ix)) - r))")
     (auto simp: int_result_def container_at_def split: if_splits)

subsection \<open>find_internal: binary search over the snapshot\<close>

text \<open>
  \<^verbatim>\<open>int offset_lookup = (offset_begin + offset_end) / 2\<close> adds two \<^verbatim>\<open>int\<close>s; the
  function returns a \<^verbatim>\<open>size_t\<close>.
\<close>

function find_internal ::
  "('k::linorder, 'v) kary_index \<Rightarrow> 'k \<Rightarrow> int \<Rightarrow> int \<Rightarrow> nat option" where
  "find_internal ix key offset_begin offset_end =
     (if offset_begin > offset_end then Some (size_f ix)
      else
        (case int_result (offset_begin + offset_end) of
           None \<Rightarrow> None
         | Some s \<Rightarrow>
             (case container_at ix (s sdiv 2) of
                None \<Rightarrow> None
              | Some en \<Rightarrow>
                  if key = key_f en then Some (to_size_t (s sdiv 2))
                  else if key > key_f en then
                    (case int_result (s sdiv 2 + 1) of
                       None \<Rightarrow> None
                     | Some b \<Rightarrow> find_internal ix key b offset_end)
                  else
                    (case int_result (s sdiv 2 - 1) of
                       None \<Rightarrow> None
                     | Some e \<Rightarrow> find_internal ix key offset_begin e))))"
  by pat_completeness auto
termination
proof (relation "measure (\<lambda>(ix, key, b, e). nat (e - b + 1))", goal_cases)
  case 1
  show ?case by simp
next
  case (2 ix key b e s en b')
  then have le: "b \<le> e" and s: "s = b + e" and b': "b' = s sdiv 2 + 1"
    by (auto simp: int_result_def split: if_splits)
  from le have "b \<le> (b + e) sdiv 2"
    by (cases "0 \<le> b + e") (simp_all add: signed_divide_int_def sgn_if, linarith+)
  with le s b' show ?case by simp
next
  case (3 ix key b e s en e')
  then have le: "b \<le> e" and s: "s = b + e" and e': "e' = s sdiv 2 - 1"
    by (auto simp: int_result_def split: if_splits)
  from le have "(b + e) sdiv 2 \<le> e"
    by (cases "0 \<le> b + e") (simp_all add: signed_divide_int_def sgn_if, linarith+)
  with le s e' show ?case by simp
qed

subsection \<open>find_inner_layers: descent through the inner nodes\<close>

text \<open>
  \<^verbatim>\<open>for (i = 0; i < k_ - 1; ++i) if (key == inner_nodes_[base_pos + dst_pos + i]) return ...\<close>:
  the first \<open>i\<close> whose pivot equals the key, if any; \<open>pos\<close> is \<open>base_pos + dst_pos\<close>.
\<close>

function pivot_eq_loop ::
  "('k, 'v) kary_index \<Rightarrow> 'k \<Rightarrow> nat \<Rightarrow> nat \<Rightarrow> nat option option" where
  "pivot_eq_loop ix key pos i =
     (if i < k_minus_1 (k_f ix) then
        (case inner_at ix (to_size_t (int pos + int i)) of
           None \<Rightarrow> None
         | Some p \<Rightarrow> if key = p then Some (Some i) else pivot_eq_loop ix key pos (i + 1))
      else Some None)"
  by pat_completeness auto
termination
  by (relation "measure (\<lambda>(ix, key, pos, i). k_minus_1 (k_f ix) - i)") auto

text \<open>
  \<^verbatim>\<open>for (i = 1; i < k_ - 1; ++i) if (key < inner_nodes_[base_pos + dst_pos + i]) return ...\<close>:
  the first \<open>i\<close> from the start index on whose pivot is above the key, if any.
\<close>

function pivot_lt_loop ::
  "('k::linorder, 'v) kary_index \<Rightarrow> 'k \<Rightarrow> nat \<Rightarrow> nat \<Rightarrow> nat option option" where
  "pivot_lt_loop ix key pos i =
     (if i < k_minus_1 (k_f ix) then
        (case inner_at ix (to_size_t (int pos + int i)) of
           None \<Rightarrow> None
         | Some p \<Rightarrow> if key < p then Some (Some i) else pivot_lt_loop ix key pos (i + 1))
      else Some None)"
  by pat_completeness auto
termination
  by (relation "measure (\<lambda>(ix, key, pos, i). k_minus_1 (k_f ix) - i)") auto

text \<open>
  \<^verbatim>\<open>find_inner_layers_internal\<close> returns a \<^verbatim>\<open>std::pair<int, int>\<close>. The step is
  computed before the loops, and the new positions before the comparison with the first
  pivot.
\<close>

partial_function (option) find_inner_layers_internal ::
  "('k::linorder, 'v) kary_index \<Rightarrow> 'k \<Rightarrow> int \<Rightarrow> int \<Rightarrow> nat \<Rightarrow> nat \<Rightarrow> nat \<Rightarrow> (int \<times> int) option"
  where
  "find_inner_layers_internal ix key begin_offset end_offset base_pos dst_pos curr_layer =
     (if num_layers_f ix = curr_layer then Some (begin_offset, end_offset)
      else
        do {
          step_offset \<leftarrow> step_offset_of (k_f ix) begin_offset end_offset;
          hit \<leftarrow> pivot_eq_loop ix key (base_pos + dst_pos) 0;
          if hit \<noteq> None then
            Some (pivot_offset begin_offset step_offset (the hit),
                  pivot_offset begin_offset step_offset (the hit))
          else
            do {
              p0 \<leftarrow> inner_at ix (to_size_t (int base_pos + int dst_pos));
              if key < p0 then
                find_inner_layers_internal ix key
                  begin_offset (first_child_end begin_offset step_offset)
                  (new_base_pos_of (k_f ix) base_pos) (new_dst_pos_of (k_f ix) dst_pos)
                  (next_layer_of curr_layer)
              else
                do {
                  child \<leftarrow> pivot_lt_loop ix key (base_pos + dst_pos) 1;
                  if child \<noteq> None then
                    find_inner_layers_internal ix key
                      (child_begin begin_offset step_offset (the child))
                      (child_end begin_offset step_offset (the child))
                      (new_base_pos_of (k_f ix) base_pos)
                      (child_dst_pos (k_f ix) (new_dst_pos_of (k_f ix) dst_pos) (the child))
                      (next_layer_of curr_layer)
                  else
                    find_inner_layers_internal ix key
                      (last_child_begin (k_f ix) begin_offset step_offset) end_offset
                      (new_base_pos_of (k_f ix) base_pos)
                      (last_dst_pos (k_f ix) (new_dst_pos_of (k_f ix) dst_pos))
                      (next_layer_of curr_layer)
                }
            }
        })"

declare find_inner_layers_internal.simps [code]

text \<open>The recursive equations are unfolded by hand in the proofs.\<close>

declare write_pivots.simps [simp del]
declare push_all.simps [simp del]
declare move_left.simps [simp del]
declare move_right.simps [simp del]
declare find_internal.simps [simp del]
declare pivot_eq_loop.simps [simp del]
declare pivot_lt_loop.simps [simp del]

text \<open>
  \<^verbatim>\<open>find_inner_layers\<close>: with no layers \<^verbatim>\<open>std::pair<int, int>(0, this->size_)\<close>;
  otherwise the root node, with \<^verbatim>\<open>int end_offset = this->size_ - 1\<close>,
  \<^verbatim>\<open>base_pos = k_ - 1\<close> and the destinations \<^verbatim>\<open>0\<close>, \<^verbatim>\<open>i * (k_ - 1)\<close> and
  \<^verbatim>\<open>(k_ - 1) * (k_ - 1)\<close>.
\<close>

definition find_inner_layers ::
  "('k::linorder, 'v) kary_index \<Rightarrow> 'k \<Rightarrow> (int \<times> int) option" where
  "find_inner_layers ix key =
     (if num_layers_f ix = 0 then Some (0, to_int (int (size_f ix)))
      else
        (let begin_offset = 0;
             end_offset = to_int (int (size_f ix) - 1);
             base_pos = k_minus_1 (k_f ix);
             next_layer = 1
         in do {
           step_offset \<leftarrow> step_offset_of (k_f ix) begin_offset end_offset;
           hit \<leftarrow> pivot_eq_loop ix key 0 0;
           if hit \<noteq> None then
             Some (pivot_offset begin_offset step_offset (the hit),
                   pivot_offset begin_offset step_offset (the hit))
           else
             do {
               p0 \<leftarrow> inner_at ix 0;
               if key < p0 then
                 find_inner_layers_internal ix key begin_offset
                   (first_child_end begin_offset step_offset) base_pos 0 next_layer
               else
                 do {
                   child \<leftarrow> pivot_lt_loop ix key 0 1;
                   if child \<noteq> None then
                     find_inner_layers_internal ix key
                       (child_begin begin_offset step_offset (the child))
                       (child_end begin_offset step_offset (the child))
                       base_pos (child_dst_pos (k_f ix) 0 (the child)) next_layer
                   else
                     find_inner_layers_internal ix key
                       (last_child_begin (k_f ix) begin_offset step_offset)
                       end_offset base_pos (last_dst_pos (k_f ix) 0) next_layer
                 }
             }
         }))"

subsection \<open>find and find_range\<close>

text \<open>
  \<^verbatim>\<open>find\<close>. \<^verbatim>\<open>offset_find\<close> is a \<^verbatim>\<open>size_t\<close>: the first component of the pair
  is converted when it is assigned. \<^verbatim>\<open>int offset_find_lhs = offset_find - 1\<close> and
  \<^verbatim>\<open>int offset_find_rhs = offset_find + 1\<close> convert back.
\<close>

definition find_key ::
  "('k::linorder, 'v) kary_index \<Rightarrow> 'k \<Rightarrow> 'v list \<Rightarrow> 'v list option" where
  "find_key ix key values =
     (if size_f ix = 0 then Some values
      else
        do {
          key_max \<leftarrow> key_max_f ix;
          key_min \<leftarrow> key_min_f ix;
          if key > key_max \<or> key < key_min then Some values
          else if key_max = key_min then
            (if key_max = key then push_all ix 0 values else Some values)
          else
            do {
              offset_range \<leftarrow> find_inner_layers ix key;
              offset_find \<leftarrow>
                (if fst offset_range = snd offset_range then Some (to_size_t (fst offset_range))
                 else find_internal ix key (fst offset_range) (snd offset_range));
              if offset_find = size_f ix then Some values
              else
                do {
                  en \<leftarrow> container_at ix (int offset_find);
                  values1 \<leftarrow> move_left ix key (to_int (int offset_find - 1))
                               (values @ [value_f en]);
                  move_right ix key (to_int (int offset_find + 1)) values1
                }
            }
        })"

text \<open>
  \<^verbatim>\<open>find_range\<close>: \<^verbatim>\<open>assert(lhs_key < rhs_key)\<close>, the two early returns, and
  then the end of the function body.
\<close>

definition find_range ::
  "('k::linorder, 'v) kary_index \<Rightarrow> 'k \<Rightarrow> 'k \<Rightarrow> 'v list \<Rightarrow> 'v list outcome" where
  "find_range ix lhs_key rhs_key values =
     (if \<not> lhs_key < rhs_key then AssertFailed ''lhs_key < rhs_key'' values
      else if size_f ix = 0 then Done values
      else
        (case (key_max_f ix, key_min_f ix) of
           (Some key_max, Some key_min) \<Rightarrow>
             if lhs_key > key_max \<or> rhs_key < key_min then Done values else Done values
         | _ \<Rightarrow> Undefined))"

section \<open>The partition of the snapshot and the state after reorganize\<close>

text \<open>
  Section 4.3 of the specification describes the inner nodes by a recursive partition of
  the snapshot: a node covers a range \<open>[lo, hi]\<close> of positions, its step is
  \<open>(hi - lo) / k\<close>, its pivots are the keys at \<open>lo + step * (i + 1)\<close>, and
  its children cover \<open>[lo, lo + step - 1]\<close>, \<open>[lo + step * i + 1, lo + step * (i + 1) - 1]\<close>
  and \<open>[lo + step * (k - 1) + 1, hi]\<close> (section 4.4 writes the same ranges). The
  definitions of this section follow that description, not the code: node \<open>n\<close> of
  layer \<open>l\<close> is reached from the root by the base-\<open>k\<close> digits of \<open>n\<close>, and
  its pivots are stored, in level order, from cell \<open>k^l - 1 + n * (k - 1)\<close> on
  (\<open>cell\<close>).
\<close>

definition cell :: "nat \<Rightarrow> nat \<Rightarrow> nat \<Rightarrow> nat \<Rightarrow> nat" where
  "cell k l n i = k ^ l - 1 + n * (k - 1) + i"

definition partition_step :: "nat \<Rightarrow> int \<Rightarrow> int \<Rightarrow> int" where
  "partition_step k lo hi = (hi - lo) div int k"

definition child_range :: "nat \<Rightarrow> int \<times> int \<Rightarrow> nat \<Rightarrow> int \<times> int" where
  "child_range k r c =
     (let lo = fst r; hi = snd r; step = partition_step k lo hi
      in if c = 0 then (lo, lo + step - 1)
         else if c < k - 1 then (lo + step * int c + 1, lo + step * (int c + 1) - 1)
         else (lo + step * int (k - 1) + 1, hi))"

text \<open>The range of node \<open>n\<close> of layer \<open>l\<close>; the root covers the whole snapshot.\<close>

fun node_range :: "nat \<Rightarrow> nat \<Rightarrow> nat \<Rightarrow> nat \<Rightarrow> int \<times> int" where
  "node_range k N 0 n = (0, int N - 1)"
| "node_range k N (Suc l) n = child_range k (node_range k N l (n div k)) (n mod k)"

text \<open>The snapshot position of pivot \<open>i\<close> of node \<open>n\<close> of layer \<open>l\<close>.\<close>

definition pivot_position :: "nat \<Rightarrow> nat \<Rightarrow> nat \<Rightarrow> nat \<Rightarrow> nat \<Rightarrow> int" where
  "pivot_position k N l n i =
     (let r = node_range k N l n
      in fst r + partition_step k (fst r) (snd r) * (int i + 1))"

text \<open>
  The ranges met in the first \<open>L\<close> layers of an index with \<open>k^L - 1 < N\<close> lie in
  the snapshot, and one with layers below it is wide enough for those layers.
\<close>

definition range_ok :: "nat \<Rightarrow> nat \<Rightarrow> nat \<Rightarrow> nat \<Rightarrow> int \<times> int \<Rightarrow> bool" where
  "range_ok k N L l r \<longleftrightarrow>
     0 \<le> fst r \<and> fst r \<le> int N \<and> - 1 \<le> snd r \<and> snd r \<le> int N - 1 \<and>
     (l < L \<longrightarrow> int k ^ (L - l) + 1 \<le> (snd r - fst r + 1) + int k)"

text \<open>The key at that position.\<close>

definition pivot_key :: "('k, 'v) kary_index \<Rightarrow> nat \<Rightarrow> nat \<Rightarrow> nat \<Rightarrow> 'k" where
  "pivot_key ix l n i =
     key_f (container_f ix ! nat (pivot_position (k_f ix) (size_f ix) l n i))"

text \<open>
  \<open>written_by ix P inner inner'\<close>: the array \<open>inner'\<close> is \<open>inner\<close> with the cells
  of the nodes that satisfy \<open>P\<close> set to their pivot keys.
\<close>

definition written_by ::
  "('k, 'v) kary_index \<Rightarrow> (nat \<Rightarrow> nat \<Rightarrow> bool) \<Rightarrow> 'k option list \<Rightarrow> 'k option list \<Rightarrow> bool" where
  "written_by ix P inner inner' \<longleftrightarrow>
     length inner' = length inner \<and>
     (\<forall>l n i. l < num_layers_f ix \<longrightarrow> n < k_f ix ^ l \<longrightarrow> i < k_f ix - 1 \<longrightarrow>
        inner' ! cell (k_f ix) l n i =
          (if P l n then Some (pivot_key ix l n i) else inner ! cell (k_f ix) l n i))"

text \<open>
  What \<^verbatim>\<open>reorganize\<close> establishes over a table of at most \<open>2^30\<close> tuples: the
  snapshot is sorted by key and has more than \<open>k^L - 1\<close> entries, the extreme keys are
  cached, and every cell of the inner-node array holds its pivot key.
\<close>

definition built :: "('k::linorder, 'v) kary_index \<Rightarrow> bool" where
  "built ix \<longleftrightarrow>
     k_f ix \<ge> 2 \<and> size_f ix = length (container_f ix) \<and> size_f ix \<le> 2 ^ 30 \<and>
     k_f ix ^ num_layers_f ix - 1 < size_f ix \<and>
     sorted (map key_f (container_f ix)) \<and>
     key_min_f ix = Some (key_f (container_f ix ! 0)) \<and>
     key_max_f ix = Some (key_f (container_f ix ! (size_f ix - 1))) \<and>
     length (inner_nodes_f ix) = k_f ix ^ num_layers_f ix - 1 \<and>
     (\<forall>l n i. l < num_layers_f ix \<longrightarrow> n < k_f ix ^ l \<longrightarrow> i < k_f ix - 1 \<longrightarrow>
        inner_nodes_f ix ! cell (k_f ix) l n i = Some (pivot_key ix l n i))"

text \<open>
  What the descent from layer \<open>l\<close> returns: the position of a pivot that equals the key,
  twice, or the range of a node of layer \<open>L\<close> that contains every position holding the key.
\<close>

definition descent_result ::
  "('k, 'v) kary_index \<Rightarrow> 'k \<Rightarrow> nat \<Rightarrow> int \<times> int \<Rightarrow> bool" where
  "descent_result ix key l r \<longleftrightarrow>
     (\<exists>l' n i. l \<le> l' \<and> l' < num_layers_f ix \<and> n < k_f ix ^ l' \<and> i < k_f ix - 1 \<and>
        r = (pivot_position (k_f ix) (size_f ix) l' n i, pivot_position (k_f ix) (size_f ix) l' n i) \<and>
        pivot_key ix l' n i = key) \<or>
     (\<exists>n. n < k_f ix ^ num_layers_f ix \<and> r = node_range (k_f ix) (size_f ix) (num_layers_f ix) n \<and>
        (\<forall>q < size_f ix. key_f (container_f ix ! q) = key \<longrightarrow> fst r \<le> int q \<and> int q \<le> snd r))"


subsection \<open>Building an index; the example indexes\<close>

text \<open>Construction followed by \<^verbatim>\<open>reorganize\<close>, as a caller builds a static index.\<close>

definition build_index ::
  "('k::linorder, 'v) entry list \<Rightarrow> nat \<Rightarrow> nat \<Rightarrow> ('k, 'v) kary_index outcome" where
  "build_index table_ptr num_layers k =
     (case KAryIndex table_ptr num_layers k of
        Done ix \<Rightarrow> reorganize ix
      | other \<Rightarrow> other)"

text \<open>
  Four tuples with the keys 1, 3, 5, 7, indexed with fanout 2: the index after
  \<^verbatim>\<open>reorganize\<close> (\<open>index_1357\<close>) and as the constructor leaves it (\<open>new_1357\<close>).
\<close>

definition table_1357 :: "(nat, nat) entry list" where
  "table_1357 = [Entry 1 10, Entry 3 30, Entry 5 50, Entry 7 70]"

definition index_1357 :: "nat \<Rightarrow> nat option list \<Rightarrow> (nat, nat) kary_index" where
  "index_1357 L inner =
     \<lparr>table_f = table_1357, container_f = table_1357, size_f = 4, num_layers_f = L, k_f = 2,
      key_min_f = Some 1, key_max_f = Some 7, inner_nodes_f = inner\<rparr>"


text \<open>Scenario S2 of the specification: the keys 1 to 26, fanout 3, two layers.\<close>

definition table_s2 :: "(nat, nat) entry list" where
  "table_s2 = map (\<lambda>i. Entry i i) [1..<27]"

definition index_s2 :: "(nat, nat) kary_index" where
  "index_s2 =
     \<lparr>table_f = table_s2, container_f = table_s2, size_f = 26, num_layers_f = 2, k_f = 3,
      key_min_f = Some 1, key_max_f = Some 26,
      inner_nodes_f = [Some 9, Some 17, Some 3, Some 5, Some 12, Some 14, Some 20, Some 22]\<rparr>"

text \<open>
  Scenario S4: the keys 3, 1, 3, 2, 3, 4, 3, 5 inserted in this order with the values
  1 to 8; fanout 2, two layers. \<open>run_s4\<close> are the tuples of key 3 in insertion order.
\<close>

definition table_s4 :: "(nat, nat) entry list" where
  "table_s4 = [Entry 3 1, Entry 1 2, Entry 3 3, Entry 2 4, Entry 3 5, Entry 4 6, Entry 3 7,
               Entry 5 8]"

definition run_s4 :: "(nat, nat) entry list" where
  "run_s4 = [Entry 3 1, Entry 3 3, Entry 3 5, Entry 3 7]"

definition new_s4 :: "(nat, nat) kary_index" where
  "new_s4 =
     \<lparr>table_f = table_s4, container_f = [], size_f = 0, num_layers_f = 2, k_f = 2,
      key_min_f = None, key_max_f = None, inner_nodes_f = []\<rparr>"

definition index_s4 :: "(nat, nat) kary_index" where
  "index_s4 =
     \<lparr>table_f = table_s4,
      container_f = [Entry 1 2, Entry 2 4, Entry 3 1, Entry 3 3, Entry 3 5, Entry 3 7,
                     Entry 4 6, Entry 5 8],
      size_f = 8, num_layers_f = 2, k_f = 2, key_min_f = Some 1, key_max_f = Some 5,
      inner_nodes_f = [Some 3, Some 2, Some 3]\<rparr>"




text \<open>A new index with one layer and fanout 2 over a table of one tuple.\<close>

definition index_one_tuple :: "(nat, nat) kary_index" where
  "index_one_tuple =
     \<lparr>table_f = [Entry 1 10], container_f = [], size_f = 0, num_layers_f = 1, k_f = 2,
      key_min_f = None, key_max_f = None, inner_nodes_f = []\<rparr>"










section \<open>Lemmas\<close>

text \<open>A value in the range of its type is left as it is.\<close>

lemma to_int_id: "- (2 ^ 31) \<le> x \<Longrightarrow> x < 2 ^ 31 \<Longrightarrow> to_int x = x"
  unfolding to_int_def by (simp add: mod_pos_pos_trivial)

lemma to_size_t_id: "0 \<le> x \<Longrightarrow> x < 2 ^ 64 \<Longrightarrow> to_size_t x = nat x"
  unfolding to_size_t_def by (simp add: mod_pos_pos_trivial)

lemma to_size_t_nat: "n < 2 ^ 64 \<Longrightarrow> to_size_t (int n) = n"
proof -
  assume "n < 2 ^ 64"
  then have "int n < int (2 ^ 64)" by (simp only: of_nat_less_iff)
  then have "int n < 2 ^ 64" by simp
  then show ?thesis by (simp add: to_size_t_id)
qed

lemma int_result_Some: "- (2 ^ 31) \<le> x \<Longrightarrow> x < 2 ^ 31 \<Longrightarrow> int_result x = Some x"
  by (simp add: int_result_def)

lemma k_minus_1_eq: "1 \<le> k \<Longrightarrow> k < 2 ^ 64 \<Longrightarrow> k_minus_1 k = k - 1"
proof -
  assume k: "1 \<le> k" "k < 2 ^ 64"
  then have "int k - 1 = int (k - 1)" by simp
  moreover have "k - 1 < 2 ^ 64" using k by simp
  ultimately show ?thesis unfolding k_minus_1_def by (simp only: to_size_t_nat)
qed

text \<open>Offsets between \<open>-1\<close> and the size of a snapshot of at most \<open>2^30\<close> entries.\<close>

lemma to_int_offset:
  "- 1 \<le> x \<Longrightarrow> x \<le> int N \<Longrightarrow> N \<le> 2 ^ 30 \<Longrightarrow> to_int x = x"
proof -
  assume a: "- 1 \<le> x" "x \<le> int N" "N \<le> 2 ^ 30"
  from a(3) have "int N \<le> int (2 ^ 30)" by (simp only: of_nat_le_iff)
  then have "int N \<le> 2 ^ 30" by simp
  with a show ?thesis by (intro to_int_id) simp_all
qed

lemma int_result_offset:
  "- 2 \<le> x \<Longrightarrow> x < 2 * int N \<Longrightarrow> N \<le> 2 ^ 30 \<Longrightarrow> int_result x = Some x"
proof -
  assume a: "- 2 \<le> x" "x < 2 * int N" "N \<le> 2 ^ 30"
  from a(3) have "int N \<le> int (2 ^ 30)" by (simp only: of_nat_le_iff)
  then have "int N \<le> 2 ^ 30" by simp
  with a show ?thesis by (intro int_result_Some) simp_all
qed

text \<open>The equations of the two kinds of call of the construction.\<close>

lemma construct_inner_layers_internal_unfold:
  "construct_inner_layers_internal ix begin_offset end_offset base_pos dst_pos curr_layer inner =
     (if begin_offset > end_offset then Some inner
      else
        do {
          step_offset \<leftarrow> step_offset_of (k_f ix) begin_offset end_offset;
          inner1 \<leftarrow> write_pivots ix begin_offset step_offset (base_pos + dst_pos) 0 inner;
          if num_layers_f ix = next_layer_of curr_layer then Some inner1
          else
            do {
              inner2 \<leftarrow> construct_inner_layers_internal ix
                          begin_offset (first_child_end begin_offset step_offset)
                          (new_base_pos_of (k_f ix) base_pos)
                          (new_dst_pos_of (k_f ix) dst_pos) (next_layer_of curr_layer) inner1;
              inner3 \<leftarrow> construct_children ix begin_offset step_offset
                          (new_base_pos_of (k_f ix) base_pos)
                          (new_dst_pos_of (k_f ix) dst_pos) (next_layer_of curr_layer) 1 inner2;
              construct_inner_layers_internal ix
                (last_child_begin (k_f ix) begin_offset step_offset) end_offset
                (new_base_pos_of (k_f ix) base_pos)
                (last_dst_pos (k_f ix) (new_dst_pos_of (k_f ix) dst_pos))
                (next_layer_of curr_layer) inner3
            }
        })"
  unfolding construct_inner_layers_internal_def construct_children_def
  by (subst construct_run.simps) simp

lemma construct_children_unfold:
  "construct_children ix begin_offset step_offset new_base_pos new_dst_pos next_layer i inner =
     (if i < k_minus_1 (k_f ix) then
        do {
          inner1 \<leftarrow> construct_inner_layers_internal ix
                      (child_begin begin_offset step_offset i)
                      (child_end begin_offset step_offset i)
                      new_base_pos (child_dst_pos (k_f ix) new_dst_pos i) next_layer inner;
          construct_children ix begin_offset step_offset new_base_pos new_dst_pos next_layer
            (i + 1) inner1
        }
      else Some inner)"
  unfolding construct_inner_layers_internal_def construct_children_def
  by (subst construct_run.simps) simp

lemma cell_Suc: "k \<ge> 2 \<Longrightarrow> Suc (cell k l n i) = k ^ l + n * (k - 1) + i"
  by (simp add: cell_def)

lemma node_offset_less:
  fixes k :: nat
  assumes "k \<ge> 2" "n < k ^ l" "i < k - 1"
  shows "n * (k - 1) + i < k ^ l * (k - 1)"
proof -
  have "n * (k - 1) + i < n * (k - 1) + (k - 1)" using assms by simp
  also have "\<dots> = Suc n * (k - 1)" by simp
  also have "\<dots> \<le> k ^ l * (k - 1)" using assms by (intro mult_le_mono1) simp
  finally show ?thesis .
qed

lemma pow_Suc_split: "k \<ge> 2 \<Longrightarrow> k ^ l + k ^ l * (k - 1) = k ^ Suc l" for k :: nat
  by (cases k) (simp_all add: algebra_simps)

lemma cell_less_next:
  assumes "k \<ge> 2" "n < k ^ l" "i < k - 1"
  shows "Suc (cell k l n i) < k ^ Suc l"
proof -
  have "Suc (cell k l n i) = k ^ l + (n * (k - 1) + i)" using assms by (simp add: cell_Suc)
  also have "\<dots> < k ^ l + k ^ l * (k - 1)" using node_offset_less [OF assms] by simp
  also have "\<dots> = k ^ Suc l" using assms(1) by (rule pow_Suc_split)
  finally show ?thesis .
qed

lemma cell_bound:
  assumes "k \<ge> 2" "l < L" "n < k ^ l" "i < k - 1"
  shows "cell k l n i < k ^ L - 1"
proof -
  have "Suc (cell k l n i) < k ^ Suc l" using assms by (intro cell_less_next)
  also have "\<dots> \<le> k ^ L" using assms by (intro power_increasing) auto
  finally show ?thesis by simp
qed

lemma cell_ge: "k \<ge> 2 \<Longrightarrow> k ^ l \<le> Suc (cell k l n i)"
  by (simp add: cell_Suc)

lemma cell_inj:
  assumes k: "k \<ge> 2" and a: "n < k ^ l" "i < k - 1" and b: "n' < k ^ l'" "i' < k - 1"
    and eq: "cell k l n i = cell k l' n' i'"
  shows "l = l' \<and> n = n' \<and> i = i'"
proof -
  have ll: "l = l'"
  proof (rule ccontr)
    assume "l \<noteq> l'"
    then consider "l < l'" | "l' < l" by linarith
    then show False
    proof cases
      case 1
      have "Suc (cell k l n i) < k ^ Suc l" using k a by (intro cell_less_next)
      also have "\<dots> \<le> k ^ l'" using k 1 by (intro power_increasing) auto
      also have "\<dots> \<le> Suc (cell k l' n' i')" using k by (rule cell_ge)
      finally show False using eq by simp
    next
      case 2
      have "Suc (cell k l' n' i') < k ^ Suc l'" using k b by (intro cell_less_next)
      also have "\<dots> \<le> k ^ l" using k 2 by (intro power_increasing) auto
      also have "\<dots> \<le> Suc (cell k l n i)" using k by (rule cell_ge)
      finally show False using eq by simp
    qed
  qed
  have "Suc (cell k l n i) = Suc (cell k l' n' i')" using eq by simp
  then have e: "n * (k - 1) + i = n' * (k - 1) + i'" using k ll by (simp add: cell_Suc)
  have "(n * (k - 1) + i) div (k - 1) = n" using a k by simp
  moreover have "(n' * (k - 1) + i') div (k - 1) = n'" using b k by simp
  ultimately have nn: "n = n'" using e by simp
  with e have "i = i'" by simp
  with ll nn show ?thesis by simp
qed


lemma step_offset_of_eq:
  assumes "lo \<le> hi" and "hi - lo < 2 ^ 31" and "k \<noteq> 0"
  shows "step_offset_of k lo hi = Some (nat (partition_step k lo hi))"
    and "int (nat (partition_step k lo hi)) = partition_step k lo hi"
proof -
  have d: "0 \<le> hi - lo" using assms(1) by simp
  have r: "int_result (hi - lo) = Some (hi - lo)"
    using d assms(2) by (intro int_result_Some) simp_all
  have t: "to_size_t (hi - lo) = nat (hi - lo)"
    using d assms(2) by (intro to_size_t_id) simp_all
  have "nat (hi - lo) div k = nat ((hi - lo) div int k)"
    using d by (simp add: nat_div_distrib)
  then show "step_offset_of k lo hi = Some (nat (partition_step k lo hi))"
    using assms(3) by (simp add: step_offset_of_def r t partition_step_def)
  have "0 < int k" using assms(3) by simp
  then have "0 \<le> (hi - lo) div int k" using d by (simp only: pos_imp_zdiv_nonneg_iff)
  then show "int (nat (partition_step k lo hi)) = partition_step k lo hi"
    by (simp add: partition_step_def)
qed

text \<open>Facts about the step of a node that still has layers below it.\<close>

lemma step_facts:
  assumes k: "k \<ge> 2" and l: "l < L" and ok: "range_ok k N L l (lo, hi)"
  shows "int k ^ (L - Suc l) - 1 \<le> partition_step k lo hi"
    and "int k * partition_step k lo hi \<le> hi - lo"
    and "0 \<le> partition_step k lo hi"
    and "lo \<le> hi"
proof -
  define K where "K = int k"
  define P where "P = K ^ (L - Suc l)"
  define d where "d = hi - lo"
  have K: "K \<ge> 2" using k by (simp add: K_def)
  have P: "P \<ge> 1" using K by (simp add: P_def)
  have "L - l = Suc (L - Suc l)" using l by simp
  then have "K ^ (L - l) = K * P" by (simp add: P_def)
  moreover have "K ^ (L - l) + 1 \<le> d + 1 + K"
    using ok l by (simp add: range_ok_def d_def K_def)
  ultimately have "K * (P - 1) \<le> d" by (simp add: algebra_simps)
  then have "(K * (P - 1)) div K \<le> d div K" using K by (intro zdiv_mono1) auto
  then have s1: "P - 1 \<le> d div K" using K by simp
  have "d = K * (d div K) + d mod K" by simp
  moreover have "0 \<le> d mod K" using K by simp
  ultimately have s2: "K * (d div K) \<le> d" by linarith
  show "int k ^ (L - Suc l) - 1 \<le> partition_step k lo hi"
    using s1 by (simp add: partition_step_def P_def K_def d_def)
  show "int k * partition_step k lo hi \<le> hi - lo"
    using s2 by (simp add: partition_step_def P_def K_def d_def)
  show s3: "0 \<le> partition_step k lo hi"
    using s1 P by (simp add: partition_step_def P_def K_def d_def)
  have "0 \<le> K * (d div K)" using K s1 P by simp
  with s2 show "lo \<le> hi" by (simp add: d_def)
qed

lemma range_ok_child:
  assumes k: "k \<ge> 2" and l: "l < L" and ok: "range_ok k N L l r" and c: "c < k"
  shows "range_ok k N L (Suc l) (child_range k r c)"
proof -
  obtain lo hi where r: "r = (lo, hi)" by (cases r)
  define s where "s = partition_step k lo hi"
  define K where "K = int k"
  define P where "P = K ^ (L - Suc l)"
  note sf = step_facts [OF k l ok [unfolded r], folded s_def K_def, folded P_def]
  have lo0: "0 \<le> lo" and hiN: "hi \<le> int N - 1" using ok by (simp_all add: range_ok_def r)
  have K: "K \<ge> 2" using k by (simp add: K_def)
  have Ks: "K * s = s * (K - 1) + s" by (simp add: algebra_simps)
  have m0: "0 \<le> s * (K - 1)" using sf(3) K by simp
  have goal: "range_ok k N L (Suc l) (a, b)"
    if "0 \<le> a" "a \<le> hi + 1" "lo - 1 \<le> b" "b \<le> hi" "P + 1 \<le> (b - a + 1) + K" for a b
    using that hiN lo0 by (simp add: range_ok_def P_def K_def)
  consider "c = 0" | "c \<noteq> 0" "c < k - 1" | "c \<noteq> 0" "\<not> c < k - 1" by blast
  then show ?thesis
  proof cases
    case 1
    then have cr: "child_range k r c = (lo, lo + s - 1)"
      by (simp add: child_range_def r s_def)
    show ?thesis unfolding cr using sf lo0 K Ks m0 by (intro goal) linarith+
  next
    case 2
    then have cr: "child_range k r c = (lo + s * int c + 1, lo + s * (int c + 1) - 1)"
      by (simp add: child_range_def r s_def Let_def)
    have k3: "K \<ge> 3" using 2 by (simp add: K_def)
    have c1: "int c + 1 \<le> K - 1" using 2 by (simp add: K_def)
    have m1: "s * (int c + 1) \<le> s * (K - 1)" using c1 sf(3) by (rule mult_left_mono)
    have m2: "0 \<le> s * int c" using sf(3) by simp
    have e: "s * (int c + 1) = s * int c + s" by (simp add: algebra_simps)
    show ?thesis unfolding cr using sf lo0 k3 Ks m0 m1 m2 e by (intro goal) linarith+
  next
    case 3
    then have cr: "child_range k r c = (lo + s * int (k - 1) + 1, hi)"
      by (simp add: child_range_def r s_def Let_def)
    have km: "int (k - 1) = K - 1" using k by (simp add: K_def)
    show ?thesis unfolding cr km using sf lo0 K Ks m0 by (intro goal) linarith+
  qed
qed

lemma range_ok_root:
  assumes "k \<ge> 2" "k ^ L - 1 < N"
  shows "range_ok k N L 0 (0, int N - 1)"
proof -
  have "k ^ L \<le> N" using assms by simp
  then have "int (k ^ L) \<le> int N" by (simp only: of_nat_le_iff)
  then have a: "int k ^ L \<le> int N" by simp
  have b: "int k \<ge> 2" using assms by simp
  show ?thesis unfolding range_ok_def fst_conv snd_conv diff_zero using a b
    by (intro conjI impI) linarith+
qed

lemma range_ok_node:
  assumes k: "k \<ge> 2" and N: "k ^ L - 1 < N"
  shows "l \<le> L \<Longrightarrow> n < k ^ l \<Longrightarrow> range_ok k N L l (node_range k N l n)"
proof (induction l arbitrary: n)
  case 0
  then show ?case using range_ok_root [OF k N] by simp
next
  case (Suc l)
  have "n div k < k ^ l" using Suc.prems k
    by (simp add: less_mult_imp_div_less mult.commute)
  then have "range_ok k N L l (node_range k N l (n div k))" using Suc by simp
  moreover have "n mod k < k" using k by simp
  ultimately show ?case using Suc.prems k by (simp add: range_ok_child)
qed

lemma node_range_child:
  assumes "c < k"
  shows "node_range k N (Suc l) (n * k + c) = child_range k (node_range k N l n) c"
  using assms by simp

text \<open>
  In an index of at most \<open>2^30\<close> entries with \<open>k^L - 1 < N\<close> the positions and offsets
  that the code computes stay in the ranges of their types.
\<close>

lemma pow_le_size:
  fixes k :: nat
  assumes k: "k \<ge> 2" and N: "k ^ L - 1 < N" and l: "l \<le> L"
  shows "k ^ l \<le> N"
proof -
  have "k ^ l \<le> k ^ L" using k l by (intro power_increasing) auto
  moreover have "k ^ L \<le> N" using N by simp
  ultimately show ?thesis by simp
qed

lemma k_le_size:
  fixes k :: nat
  assumes k: "k \<ge> 2" and N: "k ^ L - 1 < N" and l: "l < L"
  shows "k \<le> N"
  using pow_le_size [OF k N, of 1] l by simp

lemma layers_less_size:
  fixes k :: nat
  assumes k: "k \<ge> 2" and N: "k ^ L - 1 < N"
  shows "L < N"
proof -
  have "L < 2 ^ L" by (rule less_exp)
  also have "(2::nat) ^ L \<le> k ^ L" using k by (intro power_mono) auto
  also have "\<dots> \<le> N" using N by simp
  finally show ?thesis .
qed

lemma below_2_64: "(N::nat) \<le> 2 ^ 30 \<Longrightarrow> x \<le> N \<Longrightarrow> x < 2 ^ 64"
proof -
  assume "N \<le> 2 ^ 30" "x \<le> N"
  then have "x \<le> 2 ^ 30" by simp
  also have "(2::nat) ^ 30 < 2 ^ 64" by simp
  finally show ?thesis .
qed

lemma square_below_2_64: "(N::nat) \<le> 2 ^ 30 \<Longrightarrow> x \<le> N * N \<Longrightarrow> x < 2 ^ 64"
proof -
  assume a: "N \<le> 2 ^ 30" "x \<le> N * N"
  have "N * N \<le> 2 ^ 30 * 2 ^ 30" using a(1) by (intro mult_mono) auto
  with a(2) have "x \<le> 2 ^ 30 * 2 ^ 30" by simp
  also have "(2::nat) ^ 30 * 2 ^ 30 < 2 ^ 64" by simp
  finally show ?thesis .
qed

text \<open>The destinations below node \<open>n\<close> of layer \<open>l\<close>.\<close>

lemma tree_bound:
  fixes k :: nat
  assumes k: "k \<ge> 2" and N: "k ^ L - 1 < N" and l: "l < L" and n: "n < k ^ l" and c: "c < k"
  shows "n * (k - 1) * k + c * (k - 1) \<le> N * N"
proof -
  have "n * k + c < Suc n * k" using c by simp
  also have "\<dots> \<le> k ^ l * k" using n by (intro mult_le_mono1) simp
  finally have "n * k + c \<le> k ^ Suc l" by (simp add: mult.commute)
  also have "\<dots> \<le> N" using l by (intro pow_le_size [OF k N]) simp
  finally have a: "n * k + c \<le> N" .
  have "k - 1 \<le> N" using k_le_size [OF k N l] by simp
  with a have "(n * k + c) * (k - 1) \<le> N * N" by (rule mult_mono) simp_all
  moreover have "n * (k - 1) * k + c * (k - 1) = (n * k + c) * (k - 1)"
    by (simp add: algebra_simps)
  ultimately show ?thesis by simp
qed

lemma k_minus_1_node:
  assumes k: "k \<ge> 2" and N: "k ^ L - 1 < N" and l: "l < L" and b: "N \<le> 2 ^ 30"
  shows "k_minus_1 k = k - 1"
  using k below_2_64 [OF b k_le_size [OF k N l]] by (intro k_minus_1_eq) simp_all

lemma slot_index:
  assumes k: "k \<ge> 2" and N: "k ^ L - 1 < N" and l: "l < L" and n: "n < k ^ l"
    and i: "i < k - 1" and b: "N \<le> 2 ^ 30"
  shows "to_size_t (int (k ^ l - 1 + n * (k - 1)) + int i) = k ^ l - 1 + n * (k - 1) + i"
proof -
  have "cell k l n i < k ^ L - 1" using k l n i by (rule cell_bound)
  then have "k ^ l - 1 + n * (k - 1) + i \<le> N" using N by (simp add: cell_def)
  then have "k ^ l - 1 + n * (k - 1) + i < 2 ^ 64" by (rule below_2_64 [OF b])
  then have "to_size_t (int (k ^ l - 1 + n * (k - 1) + i)) = k ^ l - 1 + n * (k - 1) + i"
    by (rule to_size_t_nat)
  then show ?thesis by (simp only: of_nat_add)
qed

lemma new_base_pos_node:
  assumes k: "k \<ge> 2" and N: "k ^ L - 1 < N" and l: "l < L" and b: "N \<le> 2 ^ 30"
  shows "new_base_pos_of k (k ^ l - 1) = (k ^ l - 1 + 1) * k - 1"
proof -
  have p: "k ^ l \<ge> 1" using k by simp
  have "k ^ Suc l \<le> N" using l by (intro pow_le_size [OF k N]) simp
  then have le: "k ^ l * k \<le> N" by (simp add: mult.commute)
  have p2: "k ^ l * k \<ge> 1" using k p by (simp add: Suc_le_eq)
  have "(int (k ^ l - 1) + 1) * int k - 1 = int (k ^ l * k - 1)"
    using p p2 by (simp add: of_nat_diff)
  moreover have "k ^ l * k - 1 < 2 ^ 64" using le by (intro below_2_64 [OF b]) simp
  ultimately have "new_base_pos_of k (k ^ l - 1) = k ^ l * k - 1"
    unfolding new_base_pos_of_def by (simp only: to_size_t_nat)
  moreover have "k ^ l - 1 + 1 = k ^ l" using p by simp
  ultimately show ?thesis by (simp only:)
qed

lemma new_dst_pos_node:
  assumes k: "k \<ge> 2" and N: "k ^ L - 1 < N" and l: "l < L" and n: "n < k ^ l"
    and b: "N \<le> 2 ^ 30"
  shows "new_dst_pos_of k (n * (k - 1)) = n * (k - 1) * k"
proof -
  have "n * (k - 1) * k + 0 * (k - 1) \<le> N * N" using k by (intro tree_bound [OF k N l n]) simp
  then have "n * (k - 1) * k < 2 ^ 64" by (intro square_below_2_64 [OF b]) simp
  then have "to_size_t (int (n * (k - 1) * k)) = n * (k - 1) * k" by (rule to_size_t_nat)
  then show ?thesis unfolding new_dst_pos_of_def by (simp only: of_nat_mult)
qed

lemma next_layer_node:
  fixes k N :: nat
  assumes k: "k \<ge> 2" and N: "k ^ L - 1 < N" and l: "l < L" and b: "N \<le> 2 ^ 30"
  shows "next_layer_of l = l + 1"
proof -
  have "l + 1 \<le> N" using layers_less_size [OF k N] l by simp
  then have "l + 1 < 2 ^ 64" by (rule below_2_64 [OF b])
  then have "to_size_t (int (l + 1)) = l + 1" by (rule to_size_t_nat)
  then show ?thesis unfolding next_layer_of_def by (simp add: add.commute)
qed

lemma child_dst_pos_node:
  assumes k: "k \<ge> 2" and N: "k ^ L - 1 < N" and l: "l < L" and n: "n < k ^ l" and c: "c < k"
    and b: "N \<le> 2 ^ 30"
  shows "child_dst_pos k (n * (k - 1) * k) c = n * (k - 1) * k + c * (k - 1)"
proof -
  have "n * (k - 1) * k + c * (k - 1) < 2 ^ 64"
    using tree_bound [OF k N l n c] by (rule square_below_2_64 [OF b])
  then have "to_size_t (int (n * (k - 1) * k + c * (k - 1))) = n * (k - 1) * k + c * (k - 1)"
    by (rule to_size_t_nat)
  moreover have "int (n * (k - 1) * k + c * (k - 1)) = int (n * (k - 1) * k) + int c * (int k - 1)"
    using k by (simp add: of_nat_diff)
  ultimately show ?thesis unfolding child_dst_pos_def by (simp only:)
qed

lemma last_dst_pos_node:
  assumes k: "k \<ge> 2" and N: "k ^ L - 1 < N" and l: "l < L" and n: "n < k ^ l"
    and b: "N \<le> 2 ^ 30"
  shows "last_dst_pos k (n * (k - 1) * k) = n * (k - 1) * k + (k - 1) * (k - 1)"
proof -
  have c: "k - 1 < k" using k by simp
  have "n * (k - 1) * k + (k - 1) * (k - 1) < 2 ^ 64"
    using tree_bound [OF k N l n c] by (rule square_below_2_64 [OF b])
  then have "to_size_t (int (n * (k - 1) * k + (k - 1) * (k - 1)))
               = n * (k - 1) * k + (k - 1) * (k - 1)"
    by (rule to_size_t_nat)
  moreover have "int (n * (k - 1) * k + (k - 1) * (k - 1))
                   = int (n * (k - 1) * k) + (int k - 1) * (int k - 1)"
    using k by (simp add: of_nat_diff)
  ultimately show ?thesis unfolding last_dst_pos_def by (simp only:)
qed

text \<open>The offsets below a node that covers \<open>(lo, hi)\<close>.\<close>

lemma node_step:
  assumes k: "k \<ge> 2" and l: "l < L" and ok: "range_ok k N L l (lo, hi)" and b: "N \<le> 2 ^ 30"
  shows "step_offset_of k lo hi = Some (nat (partition_step k lo hi))"
    and "int (nat (partition_step k lo hi)) = partition_step k lo hi"
proof -
  note sf = step_facts [OF k l ok]
  have "int N \<le> int (2 ^ 30)" using b by (simp only: of_nat_le_iff)
  then have d: "hi - lo < 2 ^ 31" using ok by (simp add: range_ok_def)
  have k0: "k \<noteq> 0" using k by simp
  show "step_offset_of k lo hi = Some (nat (partition_step k lo hi))"
    by (rule step_offset_of_eq(1) [OF sf(4) d k0])
  show "int (nat (partition_step k lo hi)) = partition_step k lo hi"
    by (rule step_offset_of_eq(2) [OF sf(4) d k0])
qed

lemma node_offsets:
  assumes k: "k \<ge> 2" and l: "l < L" and ok: "range_ok k N L l (lo, hi)" and b: "N \<le> 2 ^ 30"
    and s: "s = nat (partition_step k lo hi)"
  shows "first_child_end lo s = lo + int s - 1"
    and "last_child_begin k lo s = lo + int s * int (k - 1) + 1"
    and "c < k - 1 \<Longrightarrow> child_begin lo s c = lo + int s * int c + 1"
    and "c < k - 1 \<Longrightarrow> child_end lo s c = lo + int s * (int c + 1) - 1"
    and "c < k - 1 \<Longrightarrow> pivot_offset lo s c = lo + int s * (int c + 1)"
    and "c < k - 1 \<Longrightarrow> int (pivot_index lo s c) = lo + int s * (int c + 1)"
proof -
  note sf = step_facts [OF k l ok]
  have si: "int s = partition_step k lo hi" using sf(3) s by simp
  have s0: "0 \<le> int s" by simp
  have lo0: "0 \<le> lo" and hiN: "hi \<le> int N - 1" using ok by (simp_all add: range_ok_def)
  have km: "int k - 1 = int (k - 1)" using k by simp
  have "int k * int s = int s * int (k - 1) + int s" using k by (simp add: algebra_simps of_nat_diff)
  with sf(2) si have top: "int s * int (k - 1) + int s \<le> hi - lo" by simp
  have mono: "int s * int c \<le> int s * int (k - 1)" if "c \<le> k - 1" for c
    using that by (intro mult_left_mono) simp_all
  have c0: "0 \<le> int s * int c" for c by simp
  have ti: "to_int x = x" if "- 1 \<le> x" "x \<le> hi + 1" for x
    using that hiN by (intro to_int_offset [OF _ _ b]) simp_all
  show "first_child_end lo s = lo + int s - 1"
    unfolding first_child_end_def using lo0 top c0 [of "k - 1"] by (intro ti) linarith+
  show "last_child_begin k lo s = lo + int s * int (k - 1) + 1"
    unfolding last_child_begin_def km using lo0 top c0 [of "k - 1"] by (intro ti) linarith+
  show "child_begin lo s c = lo + int s * int c + 1" if "c < k - 1"
  proof -
    from that have "c \<le> k - 1" by simp
    from mono [OF this] show ?thesis
      unfolding child_begin_def using lo0 top c0 [of c] by (intro ti) linarith+
  qed
  have e: "int s * (int c + 1) = int s * int (Suc c)" for c by simp
  show "child_end lo s c = lo + int s * (int c + 1) - 1" if "c < k - 1"
  proof -
    from that have "Suc c \<le> k - 1" by simp
    from mono [OF this] show ?thesis
      unfolding child_end_def e using lo0 top c0 [of "Suc c"] by (intro ti) linarith+
  qed
  show "pivot_offset lo s c = lo + int s * (int c + 1)" if "c < k - 1"
  proof -
    from that have "Suc c \<le> k - 1" by simp
    from mono [OF this] show ?thesis
      unfolding pivot_offset_def e using lo0 top c0 [of "Suc c"] by (intro ti) linarith+
  qed
  show "int (pivot_index lo s c) = lo + int s * (int c + 1)" if "c < k - 1"
  proof -
    from that have "Suc c \<le> k - 1" by simp
    from mono [OF this] have le: "lo + int s * int (Suc c) \<le> int N"
      using top hiN by linarith
    have ge: "0 \<le> lo + int s * int (Suc c)" using lo0 c0 [of "Suc c"] by linarith
    have "int N \<le> int (2 ^ 30)" using b by (simp only: of_nat_le_iff)
    then have "lo + int s * int (Suc c) < 2 ^ 64" using le by simp
    with ge have "to_size_t (lo + int s * int (Suc c)) = nat (lo + int s * int (Suc c))"
      by (rule to_size_t_id)
    then show ?thesis unfolding pivot_index_def e using ge by simp
  qed
qed

lemma container_at_Some:
  "0 \<le> p \<Longrightarrow> p < int (length (container_f ix)) \<Longrightarrow>
     container_at ix p = Some (container_f ix ! nat p)"
  by (simp add: container_at_def)

lemma write_pivots_result:
  assumes k: "k_f ix \<ge> 2" and b: "0 \<le> b"
    and top: "b + int s * int (k_f ix - 1) < int (length (container_f ix))"
    and k64: "k_f ix < 2 ^ 64" and c64: "length (container_f ix) < 2 ^ 64"
    and i64: "length inner0 < 2 ^ 64"
  shows "i \<le> k_f ix - 1 \<Longrightarrow> pos + (k_f ix - 1) \<le> length inner \<Longrightarrow>
     length inner = length inner0 \<Longrightarrow>
     \<exists>inner'. write_pivots ix b s pos i inner = Some inner' \<and> length inner' = length inner \<and>
       (\<forall>j<length inner. inner' ! j =
          (if pos + i \<le> j \<and> j < pos + (k_f ix - 1)
           then Some (key_f (container_f ix ! nat (b + int s * (int (j - pos) + 1))))
           else inner ! j))"
proof (induction "k_f ix - 1 - i" arbitrary: i inner)
  case 0
  have km: "k_minus_1 (k_f ix) = k_f ix - 1" using k k64 by (simp add: k_minus_1_eq)
  from 0 have "\<not> i < k_f ix - 1" by simp
  then have "write_pivots ix b s pos i inner = Some inner"
    by (subst write_pivots.simps) (simp add: km)
  moreover have "\<not> (pos + i \<le> j \<and> j < pos + (k_f ix - 1))" for j
    using \<open>\<not> i < k_f ix - 1\<close> by arith
  ultimately show ?case by (simp only: if_False) simp
next
  case (Suc m)
  have km: "k_minus_1 (k_f ix) = k_f ix - 1" using k k64 by (simp add: k_minus_1_eq)
  from Suc have i: "i < k_f ix - 1" by simp
  let ?p = "b + int s * (int i + 1)"
  have "int s * (int i + 1) \<le> int s * int (k_f ix - 1)"
    using i by (intro mult_left_mono) auto
  then have p: "0 \<le> ?p" "?p < int (length (container_f ix))" using b top by auto
  let ?inner1 = "inner[pos + i := Some (key_f (container_f ix ! nat ?p))]"
  have pi: "pos + i < length inner" using i Suc.prems by arith
  have "int (length (container_f ix)) < int (2 ^ 64)" using c64 by (simp only: of_nat_less_iff)
  then have "?p < 2 ^ 64" using p(2) by simp
  then have "int (pivot_index b s i) = ?p"
    using p(1) by (simp add: pivot_index_def to_size_t_id)
  then have rd: "container_at ix (int (pivot_index b s i)) = Some (container_f ix ! nat ?p)"
    using p by (simp only: container_at_Some)
  have "pos + i < 2 ^ 64" using pi i64 Suc.prems(3) by simp
  then have "to_size_t (int (pos + i)) = pos + i" by (rule to_size_t_nat)
  then have wr: "to_size_t (int pos + int i) = pos + i" by simp
  have w: "write_pivots ix b s pos i inner = write_pivots ix b s pos (i + 1) ?inner1"
    using i pi by (subst write_pivots.simps) (simp add: km rd wr)
  have "m = k_f ix - 1 - (i + 1)" using Suc.hyps(2) by simp
  from Suc.hyps(1) [OF this, of ?inner1] i Suc.prems
  obtain inner' where r: "write_pivots ix b s pos (i + 1) ?inner1 = Some inner'"
    "length inner' = length inner"
    "\<forall>j<length inner. inner' ! j =
          (if pos + (i + 1) \<le> j \<and> j < pos + (k_f ix - 1)
           then Some (key_f (container_f ix ! nat (b + int s * (int (j - pos) + 1))))
           else ?inner1 ! j)"
    by auto
  have "inner' ! j =
          (if pos + i \<le> j \<and> j < pos + (k_f ix - 1)
           then Some (key_f (container_f ix ! nat (b + int s * (int (j - pos) + 1))))
           else inner ! j)" if "j < length inner" for j
  proof (cases "j = pos + i")
    case True
    have c: "pos + i \<le> j \<and> j < pos + (k_f ix - 1)" using i True by arith
    have "inner' ! j = ?inner1 ! j" using r(3) that True by simp
    also have "\<dots> = Some (key_f (container_f ix ! nat ?p))" using that True by simp
    also have "?p = b + int s * (int (j - pos) + 1)" using True by simp
    finally show ?thesis using c by (simp only: if_True simp_thms)
  next
    case False
    have "(pos + (i + 1) \<le> j \<and> j < pos + (k_f ix - 1)) = (pos + i \<le> j \<and> j < pos + (k_f ix - 1))"
      using False by arith
    moreover have "?inner1 ! j = inner ! j" using False by simp
    ultimately show ?thesis using r(3) that by (simp only:)
  qed
  with w r show ?case by simp
qed

lemma written_by_length: "written_by ix P inner inner' \<Longrightarrow> length inner' = length inner"
  by (simp add: written_by_def)

lemma written_by_refl: "(\<And>l n. \<not> P l n) \<Longrightarrow> written_by ix P inner inner"
  by (simp add: written_by_def)

lemma written_by_trans:
  assumes "written_by ix P a b" "written_by ix Q b c"
  shows "written_by ix (\<lambda>l n. P l n \<or> Q l n) a c"
  using assms unfolding written_by_def by auto

lemma written_by_cong:
  assumes "written_by ix P a b"
    and "\<And>l n. l < num_layers_f ix \<Longrightarrow> n < k_f ix ^ l \<Longrightarrow> P l n = Q l n"
  shows "written_by ix Q a b"
  using assms unfolding written_by_def by auto

lemma write_node:
  assumes k: "k_f ix \<ge> 2" and sz: "size_f ix = length (container_f ix)"
    and N: "k_f ix ^ num_layers_f ix - 1 < size_f ix"
    and l: "l < num_layers_f ix" and n: "n < k_f ix ^ l"
    and len: "length inner = k_f ix ^ num_layers_f ix - 1"
    and r: "node_range (k_f ix) (size_f ix) l n = (b, e)"
    and bound: "size_f ix \<le> 2 ^ 30"
  shows "\<exists>inner1. write_pivots ix b (nat (partition_step (k_f ix) b e)) (k_f ix ^ l - 1 + n * (k_f ix - 1)) 0 inner
            = Some inner1 \<and>
          written_by ix (\<lambda>l' n'. l' = l \<and> n' = n) inner inner1"
proof -
  let ?k = "k_f ix" and ?L = "num_layers_f ix" and ?N = "size_f ix"
  let ?s = "nat (partition_step ?k b e)"
  let ?pos = "?k ^ l - 1 + n * (?k - 1)"
  have ok: "range_ok ?k ?N ?L l (b, e)"
    using range_ok_node [OF k N, of l n] l n r by simp
  note sf = step_facts [OF k l ok]
  have s: "int ?s = partition_step ?k b e" by (rule node_step(2) [OF k l ok bound])
  have k64: "?k < 2 ^ 64" by (rule below_2_64 [OF bound k_le_size [OF k N l]])
  have c64: "length (container_f ix) < 2 ^ 64" using below_2_64 [OF bound order_refl] sz by simp
  have i64: "length inner < 2 ^ 64" using len N by (intro below_2_64 [OF bound]) simp
  have b0: "0 \<le> b" and eN: "e \<le> int ?N - 1" using ok by (simp_all add: range_ok_def)
  have "int ?k * partition_step ?k b e = partition_step ?k b e * int (?k - 1) + partition_step ?k b e"
    using k by (simp add: algebra_simps of_nat_diff)
  with sf have "partition_step ?k b e * int (?k - 1) \<le> e - b" by linarith
  then have top: "b + int ?s * int (?k - 1) < int (length (container_f ix))"
    using eN sz s by simp
  have posw: "?pos + (?k - 1) \<le> length inner"
  proof -
    have "cell ?k l n (?k - 2) < ?k ^ ?L - 1" using k l n by (intro cell_bound) auto
    then show ?thesis using len k by (simp add: cell_def)
  qed
  from write_pivots_result [OF k b0 top k64 c64 i64, of 0 ?pos inner] posw
  obtain inner1 where w: "write_pivots ix b ?s ?pos 0 inner = Some inner1"
    and len1: "length inner1 = length inner"
    and c: "\<forall>j<length inner. inner1 ! j =
          (if ?pos + 0 \<le> j \<and> j < ?pos + (?k - 1)
           then Some (key_f (container_f ix ! nat (b + int ?s * (int (j - ?pos) + 1))))
           else inner ! j)"
    by auto
  have "inner1 ! cell ?k l' n' i' =
          (if l' = l \<and> n' = n then Some (pivot_key ix l' n' i') else inner ! cell ?k l' n' i')"
    if l': "l' < ?L" and n': "n' < ?k ^ l'" and i': "i' < ?k - 1" for l' n' i'
  proof -
    let ?j = "cell ?k l' n' i'"
    have jlen: "?j < length inner" using cell_bound [OF k l' n' i'] len by simp
    show ?thesis
    proof (cases "l' = l \<and> n' = n")
      case True
      then have j: "?j = ?pos + i'" by (simp add: cell_def)
      then have "?pos + 0 \<le> ?j \<and> ?j < ?pos + (?k - 1)" using i' by simp
      with c jlen have "inner1 ! ?j = Some (key_f (container_f ix ! nat (b + int ?s * (int (?j - ?pos) + 1))))"
        by (simp only: if_True simp_thms)
      also have "b + int ?s * (int (?j - ?pos) + 1) = pivot_position ?k ?N l n i'"
        using j s r by (simp add: pivot_position_def)
      finally show ?thesis using True by (simp add: pivot_key_def)
    next
      case False
      have "\<not> (?pos + 0 \<le> ?j \<and> ?j < ?pos + (?k - 1))"
      proof
        assume a: "?pos + 0 \<le> ?j \<and> ?j < ?pos + (?k - 1)"
        define j where "j = ?j"
        define i where "i = j - ?pos"
        have i1: "i < ?k - 1" using a unfolding i_def j_def [symmetric] by arith
        have "j = ?pos + i" using a unfolding i_def j_def [symmetric] by arith
        then have "j = cell ?k l n i" by (simp add: cell_def)
        then have "cell ?k l n i = cell ?k l' n' i'" by (simp add: j_def)
        from cell_inj [OF k n i1 n' i' this] False show False by simp
      qed
      with c jlen have "inner1 ! ?j = inner ! ?j" by (simp only: if_False)
      with False show ?thesis by auto
    qed
  qed
  with w len1 show ?thesis unfolding written_by_def by blast
qed

lemma construct_children_result:
  assumes km: "k_minus_1 (k_f ix) = k_f ix - 1"
    and child: "\<And>c innerX. 1 \<le> c \<Longrightarrow> c < k_f ix - 1 \<Longrightarrow> length innerX = M \<Longrightarrow>
      \<exists>innerY. construct_inner_layers_internal ix (child_begin b s c) (child_end b s c)
                  nb (child_dst_pos (k_f ix) nd c) nl innerX = Some innerY \<and>
                written_by ix (Q c) innerX innerY"
  shows "1 \<le> i \<Longrightarrow> i \<le> k_f ix - 1 \<Longrightarrow> length innerX = M \<Longrightarrow>
     \<exists>inner'. construct_children ix b s nb nd nl i innerX = Some inner' \<and>
       written_by ix (\<lambda>l' n'. \<exists>c. i \<le> c \<and> c < k_f ix - 1 \<and> Q c l' n') innerX inner'"
proof (induction "k_f ix - 1 - i" arbitrary: i innerX)
  case 0
  then have "\<not> i < k_f ix - 1" by simp
  then have "construct_children ix b s nb nd nl i innerX = Some innerX"
    by (subst construct_children_unfold) (simp add: km)
  moreover have "written_by ix (\<lambda>l' n'. \<exists>c. i \<le> c \<and> c < k_f ix - 1 \<and> Q c l' n') innerX innerX"
    using 0 by (intro written_by_refl) auto
  ultimately show ?case by blast
next
  case (Suc m)
  then have i: "i < k_f ix - 1" by simp
  from child [OF Suc.prems(1) i Suc.prems(3)]
  obtain inner1 where c1: "construct_inner_layers_internal ix (child_begin b s i)
                  (child_end b s i) nb (child_dst_pos (k_f ix) nd i) nl innerX = Some inner1"
    and w1: "written_by ix (Q i) innerX inner1" by blast
  have len1: "length inner1 = M" using w1 Suc.prems by (simp add: written_by_length)
  have "m = k_f ix - 1 - Suc i" using Suc.hyps(2) by simp
  from Suc.hyps(1) [OF this _ _ len1] i
  obtain inner' where c2: "construct_children ix b s nb nd nl (Suc i) inner1 = Some inner'"
    and w2: "written_by ix (\<lambda>l' n'. \<exists>c. Suc i \<le> c \<and> c < k_f ix - 1 \<and> Q c l' n') inner1 inner'"
    by auto
  have "construct_children ix b s nb nd nl i innerX = Some inner'"
    using i c1 c2 by (subst construct_children_unfold) (simp add: km)
  moreover have "written_by ix (\<lambda>l' n'. \<exists>c. i \<le> c \<and> c < k_f ix - 1 \<and> Q c l' n') innerX inner'"
  proof (rule written_by_cong [OF written_by_trans [OF w1 w2]])
    fix l' n'
    show "(Q i l' n' \<or> (\<exists>c. Suc i \<le> c \<and> c < k_f ix - 1 \<and> Q c l' n')) =
          (\<exists>c. i \<le> c \<and> c < k_f ix - 1 \<and> Q c l' n')" (is "?A = ?B")
    proof
      assume ?A
      then show ?B
      proof
        assume "Q i l' n'"
        with i show ?B by (intro exI [of _ i]) simp
      next
        assume "\<exists>c. Suc i \<le> c \<and> c < k_f ix - 1 \<and> Q c l' n'"
        then obtain c where "Suc i \<le> c" "c < k_f ix - 1" "Q c l' n'" by blast
        then show ?B by (intro exI [of _ c]) simp
      qed
    next
      assume ?B
      then obtain c where c: "i \<le> c" "c < k_f ix - 1" "Q c l' n'" by blast
      show ?A
      proof (cases "c = i")
        case True
        with c show ?thesis by simp
      next
        case False
        with c have "Suc i \<le> c" by simp
        with c show ?thesis by blast
      qed
    qed
  qed
  ultimately show ?case by blast
qed

lemma div_eq_iff_offset:
  fixes k :: nat
  assumes "k > 0"
  shows "(q div k = n) = (\<exists>c<k. q = n * k + c)"
proof
  assume "q div k = n"
  then have "q = n * k + q mod k" by (metis div_mult_mod_eq)
  moreover have "q mod k < k" using assms by simp
  ultimately show "\<exists>c<k. q = n * k + c" by blast
next
  assume "\<exists>c<k. q = n * k + c"
  then show "q div k = n" using assms by auto
qed

lemma dst_child: "n * w * k + c * w = (n * k + c) * w" for n w k c :: nat
  by (simp add: algebra_simps)

lemma subtree_split:
  fixes k :: nat
  assumes k: "k \<ge> 2"
  shows "((l' = l \<and> n' = n) \<or>
          (Suc l \<le> l' \<and> n' div k ^ (l' - Suc l) = n * k + 0) \<or>
          (\<exists>c. 1 \<le> c \<and> c < k - 1 \<and> Suc l \<le> l' \<and> n' div k ^ (l' - Suc l) = n * k + c) \<or>
          (Suc l \<le> l' \<and> n' div k ^ (l' - Suc l) = n * k + (k - 1)))
       = (l \<le> l' \<and> n' div k ^ (l' - l) = n)"
proof -
  consider "l' < l" | "l' = l" | "Suc l \<le> l'" by linarith
  then show ?thesis
  proof cases
    case 1
    then show ?thesis by auto
  next
    case 2
    then show ?thesis by auto
  next
    case 3
    define q where "q = n' div k ^ (l' - Suc l)"
    have "l' - l = Suc (l' - Suc l)" using 3 by simp
    then have "n' div k ^ (l' - l) = q div k"
      by (simp only: q_def power_Suc2 div_mult2_eq)
    also have "(q div k = n) = (\<exists>c<k. q = n * k + c)" using k by (intro div_eq_iff_offset) simp
    finally have R: "(n' div k ^ (l' - l) = n) = (\<exists>c<k. q = n * k + c)" .
    have "(\<exists>c<k. q = n * k + c) =
       (q = n * k + 0 \<or> (\<exists>c. 1 \<le> c \<and> c < k - 1 \<and> q = n * k + c) \<or> q = n * k + (k - 1))"
      (is "?A = ?B")
    proof
      assume ?A
      then obtain c where c: "c < k" "q = n * k + c" by blast
      consider "c = 0" | "1 \<le> c" "c < k - 1" | "c = k - 1" using c(1) by linarith
      then show ?B using c(2) by cases auto
    next
      assume ?B
      then show ?A using k
        by (elim disjE exE conjE) (auto intro: exI [of _ 0] exI [of _ "k - 1"])
    qed
    with R 3 show ?thesis unfolding q_def [symmetric] by auto
  qed
qed

lemma construct_node_step:
  fixes ix :: "('k, 'v) kary_index"
  assumes k: "k_f ix \<ge> 2" and sz: "size_f ix = length (container_f ix)"
    and N: "k_f ix ^ num_layers_f ix - 1 < size_f ix"
    and l: "l < num_layers_f ix" and n: "n < k_f ix ^ l"
    and len: "length inner = k_f ix ^ num_layers_f ix - 1"
    and r: "node_range (k_f ix) (size_f ix) l n = (b, e)"
    and bound: "size_f ix \<le> 2 ^ 30"
    and IH: "\<And>n' innerX. Suc l < num_layers_f ix \<Longrightarrow> n' < k_f ix ^ Suc l \<Longrightarrow>
        length innerX = k_f ix ^ num_layers_f ix - 1 \<Longrightarrow>
        \<exists>innerY. construct_inner_layers_internal ix
                    (fst (node_range (k_f ix) (size_f ix) (Suc l) n'))
                    (snd (node_range (k_f ix) (size_f ix) (Suc l) n'))
                    (k_f ix ^ Suc l - 1) (n' * (k_f ix - 1)) (Suc l) innerX = Some innerY \<and>
                  written_by ix (\<lambda>l' m. Suc l \<le> l' \<and> m div k_f ix ^ (l' - Suc l) = n') innerX innerY"
  shows "\<exists>inner'. construct_inner_layers_internal ix b e (k_f ix ^ l - 1) (n * (k_f ix - 1)) l inner
            = Some inner' \<and>
          written_by ix (\<lambda>l' n'. l \<le> l' \<and> n' div k_f ix ^ (l' - l) = n) inner inner'"
proof -
  let ?k = "k_f ix" and ?L = "num_layers_f ix" and ?N = "size_f ix"
  define s where "s = nat (partition_step ?k b e)"
  let ?M = "?k ^ ?L - 1"
  let ?nb = "(?k ^ l - 1 + 1) * ?k - 1"
  let ?nd = "n * (?k - 1) * ?k"
  have ok: "range_ok ?k ?N ?L l (b, e)"
    using range_ok_node [OF k N, of l n] l n r by simp
  note sf = step_facts [OF k l ok]
  have s: "int s = partition_step ?k b e"
    unfolding s_def by (rule node_step(2) [OF k l ok bound])
  have so: "step_offset_of ?k b e = Some s"
    unfolding s_def by (rule node_step(1) [OF k l ok bound])
  have nl: "next_layer_of l = l + 1" by (rule next_layer_node [OF k N l bound])
  have km: "k_minus_1 ?k = ?k - 1" by (rule k_minus_1_node [OF k N l bound])
  have nbp: "new_base_pos_of ?k (?k ^ l - 1) = ?nb" by (rule new_base_pos_node [OF k N l bound])
  have ndp: "new_dst_pos_of ?k (n * (?k - 1)) = ?nd" by (rule new_dst_pos_node [OF k N l n bound])
  have ldp: "last_dst_pos ?k ?nd = ?nd + (?k - 1) * (?k - 1)"
    by (rule last_dst_pos_node [OF k N l n bound])
  note no = node_offsets [OF k l ok bound s_def]
  from write_node [OF k sz N l n len r bound, folded s_def]
  obtain inner1 where w: "write_pivots ix b s (?k ^ l - 1 + n * (?k - 1)) 0 inner = Some inner1"
    and w1: "written_by ix (\<lambda>l' n'. l' = l \<and> n' = n) inner inner1" by blast
  have len1: "length inner1 = ?M" using w1 len by (simp add: written_by_length)
  show ?thesis
  proof (cases "?L = l + 1")
    case True
    have "construct_inner_layers_internal ix b e (?k ^ l - 1) (n * (?k - 1)) l inner = Some inner1"
      using sf(4) w True
      by (subst construct_inner_layers_internal_unfold, simp only: so nl) simp
    moreover have "written_by ix (\<lambda>l' n'. l \<le> l' \<and> n' div ?k ^ (l' - l) = n) inner inner1"
    proof (rule written_by_cong [OF w1])
      fix l' n' assume "l' < ?L"
      with True have "l \<le> l' \<longleftrightarrow> l' = l" by auto
      then show "(l' = l \<and> n' = n) = (l \<le> l' \<and> n' div ?k ^ (l' - l) = n)" by auto
    qed
    ultimately show ?thesis by blast
  next
    case False
    with l have Sl: "Suc l < ?L" by simp
    have nb: "?nb = ?k ^ Suc l - 1" using k by (simp add: mult.commute)
    have child: "\<exists>innerY. construct_inner_layers_internal ix
                    (fst (child_range ?k (b, e) c)) (snd (child_range ?k (b, e) c))
                    ?nb (?nd + c * (?k - 1)) (l + 1) innerX = Some innerY \<and>
                  written_by ix (\<lambda>l' m. Suc l \<le> l' \<and> m div ?k ^ (l' - Suc l) = n * ?k + c) innerX innerY"
      if c: "c < ?k" and lx: "length innerX = ?M" for c innerX
    proof -
      have "n * ?k + c < Suc n * ?k" using c by simp
      also have "\<dots> \<le> ?k ^ l * ?k" using n by (intro mult_le_mono1) simp
      finally have n': "n * ?k + c < ?k ^ Suc l" by (simp add: mult.commute)
      have nr: "node_range ?k ?N (Suc l) (n * ?k + c) = child_range ?k (b, e) c"
        using c r by simp
      have d: "?nd + c * (?k - 1) = (n * ?k + c) * (?k - 1)" by (rule dst_child)
      from IH [OF Sl n' lx] show ?thesis unfolding nr nb d by simp
    qed
    have k1: "?k - 1 \<noteq> 0" "\<not> ?k - 1 < ?k - 1" "?k - 1 < ?k" using k by auto
    from child [of 0 inner1] len1 k
    obtain inner2 where c0: "construct_inner_layers_internal ix b (b + int s - 1)
                    ?nb ?nd (l + 1) inner1 = Some inner2"
      and w2: "written_by ix (\<lambda>l' m. Suc l \<le> l' \<and> m div ?k ^ (l' - Suc l) = n * ?k + 0) inner1 inner2"
      by (auto simp: child_range_def s)
    have len2: "length inner2 = ?M" using w2 len1 by (simp add: written_by_length)
    have "\<exists>inner3. construct_children ix b s ?nb ?nd (l + 1) 1 inner2 = Some inner3 \<and>
       written_by ix (\<lambda>l' n'. \<exists>c. 1 \<le> c \<and> c < ?k - 1 \<and>
          (Suc l \<le> l' \<and> n' div ?k ^ (l' - Suc l) = n * ?k + c)) inner2 inner3"
    proof (rule construct_children_result [where M = "?M", OF km])
      fix c :: nat and innerX :: "'k option list"
      assume c: "1 \<le> c" "c < ?k - 1" and lx: "length innerX = ?M"
      then have ck: "c < ?k" "c \<noteq> 0" by auto
      have cd: "child_dst_pos ?k ?nd c = ?nd + c * (?k - 1)"
        by (rule child_dst_pos_node [OF k N l n ck(1) bound])
      from child [OF ck(1) lx] c ck(2)
      have "\<exists>innerY. construct_inner_layers_internal ix (b + int s * int c + 1)
                  (b + int s * (int c + 1) - 1) ?nb (?nd + c * (?k - 1)) (l + 1) innerX = Some innerY \<and>
                written_by ix (\<lambda>l' n'. Suc l \<le> l' \<and> n' div ?k ^ (l' - Suc l) = n * ?k + c) innerX innerY"
        by (simp add: child_range_def s Let_def)
      then show "\<exists>innerY. construct_inner_layers_internal ix (child_begin b s c)
                  (child_end b s c) ?nb (child_dst_pos ?k ?nd c) (l + 1) innerX = Some innerY \<and>
                written_by ix (\<lambda>l' n'. Suc l \<le> l' \<and> n' div ?k ^ (l' - Suc l) = n * ?k + c) innerX innerY"
        by (simp only: no(3) [OF c(2)] no(4) [OF c(2)] cd)
    next
      show "1 \<le> (1::nat)" by simp
      show "1 \<le> ?k - 1" using k by simp
      show "length inner2 = ?M" by (rule len2)
    qed
    then obtain inner3 where c1: "construct_children ix b s ?nb ?nd (l + 1) 1 inner2 = Some inner3"
      and w3: "written_by ix (\<lambda>l' n'. \<exists>c. 1 \<le> c \<and> c < ?k - 1 \<and>
          (Suc l \<le> l' \<and> n' div ?k ^ (l' - Suc l) = n * ?k + c)) inner2 inner3" by blast
    have len3: "length inner3 = ?M" using w3 len2 by (simp add: written_by_length)
    from child [OF k1(3) len3] k1
    obtain inner4 where c2: "construct_inner_layers_internal ix (b + int s * int (?k - 1) + 1) e
                    ?nb (?nd + (?k - 1) * (?k - 1)) (l + 1) inner3 = Some inner4"
      and w4: "written_by ix (\<lambda>l' m. Suc l \<le> l' \<and> m div ?k ^ (l' - Suc l) = n * ?k + (?k - 1)) inner3 inner4"
      by (auto simp: child_range_def s Let_def)
    have "construct_inner_layers_internal ix b e (?k ^ l - 1) (n * (?k - 1)) l inner = Some inner4"
      using sf(4) w False c0 c1 c2
      by (subst construct_inner_layers_internal_unfold,
          simp only: so nl nbp ndp ldp) (simp add: no(1) no(2))
    moreover have "written_by ix (\<lambda>l' n'. l \<le> l' \<and> n' div ?k ^ (l' - l) = n) inner inner4"
      by (rule written_by_cong [OF written_by_trans [OF w1 written_by_trans [OF w2 written_by_trans [OF w3 w4]]]])
         (rule subtree_split [OF k])
    ultimately show ?thesis by blast
  qed
qed

lemma construct_node:
  assumes k: "k_f ix \<ge> 2" and sz: "size_f ix = length (container_f ix)"
    and N: "k_f ix ^ num_layers_f ix - 1 < size_f ix"
    and bound: "size_f ix \<le> 2 ^ 30"
  shows "l < num_layers_f ix \<Longrightarrow> n < k_f ix ^ l \<Longrightarrow>
     length inner = k_f ix ^ num_layers_f ix - 1 \<Longrightarrow>
     \<exists>inner'. construct_inner_layers_internal ix
                 (fst (node_range (k_f ix) (size_f ix) l n))
                 (snd (node_range (k_f ix) (size_f ix) l n))
                 (k_f ix ^ l - 1) (n * (k_f ix - 1)) l inner = Some inner' \<and>
       written_by ix (\<lambda>l' n'. l \<le> l' \<and> n' div k_f ix ^ (l' - l) = n) inner inner'"
proof (induction "num_layers_f ix - l" arbitrary: l n inner)
  case 0
  then show ?case by simp
next
  case (Suc m)
  obtain b e where r: "node_range (k_f ix) (size_f ix) l n = (b, e)"
    by (cases "node_range (k_f ix) (size_f ix) l n")
  have m: "m = num_layers_f ix - Suc l" using Suc.hyps(2) by simp
  show ?case unfolding r fst_conv snd_conv
    by (rule construct_node_step [OF k sz N Suc.prems r bound]) (rule Suc.hyps(1) [OF m])
qed

lemma construct_inner_layers_root:
  assumes N1: "size_f ix \<ge> 1" and L: "num_layers_f ix \<noteq> 0" and k: "k_f ix \<ge> 2"
    and bound: "size_f ix \<le> 2 ^ 30"
  shows "construct_inner_layers ix inner =
     (case construct_inner_layers_internal ix 0 (int (size_f ix) - 1) 0 0 0 inner of
        None \<Rightarrow> Undefined | Some r \<Rightarrow> Done r)"
proof -
  have e: "int (size_f ix - 1) = int (size_f ix) - 1" using N1 by simp
  have "size_f ix - 1 < 2 ^ 64" by (rule below_2_64 [OF bound]) simp
  then have "to_size_t (int (size_f ix - 1)) = size_f ix - 1" by (rule to_size_t_nat)
  then have ts: "to_size_t (int (size_f ix) - 1) = size_f ix - 1" by (simp only: e)
  have "int (size_f ix) \<le> int (2 ^ 30)" using bound by (simp only: of_nat_le_iff)
  then have b31: "int (size_f ix) - 1 < 2 ^ 31" by simp
  have ti0: "to_int (int (size_f ix) - 1) = int (size_f ix) - 1"
    using N1 b31 by (intro to_int_id) simp_all
  then have ti: "to_int (int (size_f ix - 1)) = int (size_f ix) - 1" by (simp only: e)
  have k0: "k_f ix \<noteq> 0" using k by simp
  have "step_offset_of (k_f ix) 0 (int (size_f ix) - 1)
          = Some (nat (partition_step (k_f ix) 0 (int (size_f ix) - 1)))"
    using N1 b31 k0 by (intro step_offset_of_eq(1)) simp_all
  also have "nat (partition_step (k_f ix) 0 (int (size_f ix) - 1)) = (size_f ix - 1) div k_f ix"
    using N1 by (simp add: partition_step_def e [symmetric] zdiv_int [symmetric] del: of_nat_diff)
  finally have s: "step_offset_of (k_f ix) 0 (int (size_f ix) - 1)
                     = Some ((size_f ix - 1) div k_f ix)" .
  have z: "to_int 0 = 0" "new_dst_pos_of (k_f ix) 0 = 0" "next_layer_of 0 = 1"
    "new_base_pos_of (k_f ix) 0 = k_minus_1 (k_f ix)" "to_size_t (int (size_f ix - 1)) = size_f ix - 1"
    using \<open>to_size_t (int (size_f ix - 1)) = size_f ix - 1\<close>
    by (simp_all add: to_int_def to_size_t_def new_dst_pos_of_def next_layer_of_def
          new_base_pos_of_def k_minus_1_def)
  show ?thesis
    using N1 L k0
    by (subst construct_inner_layers_internal_unfold)
       (simp add: construct_inner_layers_def s ts ti ti0 z Let_def split: option.splits bind_splits)
qed

lemma construct_inner_layers_result:
  fixes ix :: "('k, 'v) kary_index"
  assumes k: "k_f ix \<ge> 2" and sz: "size_f ix = length (container_f ix)"
    and N: "k_f ix ^ num_layers_f ix - 1 < size_f ix"
    and L: "num_layers_f ix \<noteq> 0"
    and len: "length inner = k_f ix ^ num_layers_f ix - 1"
    and bound: "size_f ix \<le> 2 ^ 30"
  shows "\<exists>inner'. construct_inner_layers ix inner = Done inner' \<and> length inner' = length inner \<and>
     (\<forall>l n i. l < num_layers_f ix \<longrightarrow> n < k_f ix ^ l \<longrightarrow> i < k_f ix - 1 \<longrightarrow>
        inner' ! cell (k_f ix) l n i = Some (pivot_key ix l n i))"
proof -
  have N1: "size_f ix \<ge> 1" using N by simp
  from construct_node [OF k sz N bound, of 0 0 inner] L len
  obtain inner' where c: "construct_inner_layers_internal ix 0 (int (size_f ix) - 1) 0 0 0 inner = Some inner'"
    and w: "written_by ix (\<lambda>l' n'. 0 \<le> l' \<and> n' div k_f ix ^ (l' - 0) = 0) inner inner'"
    by auto
  have "construct_inner_layers ix inner = Done inner'"
    using construct_inner_layers_root [OF N1 L k bound, of inner] c by simp
  moreover have "inner' ! cell (k_f ix) l n i = Some (pivot_key ix l n i)"
    if "l < num_layers_f ix" "n < k_f ix ^ l" "i < k_f ix - 1" for l n i
    using w that unfolding written_by_def by simp
  ultimately show ?thesis using w by (auto simp: written_by_length)
qed

lemma reorganize_result:
  fixes ix0 :: "('k::linorder, 'v) kary_index"
  assumes k: "k_f ix0 \<ge> 2" and N: "k_f ix0 ^ num_layers_f ix0 - 1 < length (table_f ix0)"
    and bound: "length (table_f ix0) \<le> 2 ^ 30"
  shows "\<exists>ix. reorganize ix0 = Done ix \<and> built ix \<and>
           container_f ix = sort_key key_f (table_f ix0) \<and> table_f ix = table_f ix0 \<and>
           k_f ix = k_f ix0 \<and> num_layers_f ix = num_layers_f ix0"
proof -
  let ?C = "sort_key key_f (table_f ix0)"
  let ?n = "length (table_f ix0)"
  let ?ix1 = "ix0\<lparr>container_f := ?C, size_f := ?n,
                 key_min_f := Some (key_f (?C ! 0)), key_max_f := Some (key_f (?C ! (?n - 1)))\<rparr>"
  have n1: "?n \<ge> 1" using N by simp
  have srt: "sorted (map key_f ?C)" by simp
  have ne: "table_f ix0 \<noteq> []" using n1 by auto
  have at0: "container_at (base_reorganize ix0) 0 = Some (?C ! 0)"
    using ne by (simp add: container_at_def base_reorganize_def)
  have "?n - 1 < 2 ^ 64" by (rule below_2_64 [OF bound]) simp
  then have "to_size_t (int (?n - 1)) = ?n - 1" by (rule to_size_t_nat)
  moreover have "int (?n - 1) = int ?n - 1" using n1 by simp
  ultimately have ts: "to_size_t (int ?n - 1) = ?n - 1" by (simp only:)
  have atn: "container_at (base_reorganize ix0) (int (to_size_t (int ?n - 1))) = Some (?C ! (?n - 1))"
    unfolding ts using n1 ne by (simp add: container_at_def base_reorganize_def nat_diff_distrib)
  have "k_f ix0 ^ num_layers_f ix0 \<le> ?n" using N by simp
  then have "k_f ix0 ^ num_layers_f ix0 \<le> 2 ^ 30" using bound by simp
  then have "int (k_f ix0 ^ num_layers_f ix0) \<le> int (2 ^ 30)" by (simp only: of_nat_le_iff)
  then have "int (k_f ix0 ^ num_layers_f ix0) \<le> 2 ^ 53" by simp
  moreover have "1 \<le> k_f ix0 ^ num_layers_f ix0" using k by simp
  ultimately have pw: "pow_minus_1 (k_f ix0) (num_layers_f ix0) = Some (k_f ix0 ^ num_layers_f ix0 - 1)"
    by (simp add: pow_minus_1_def)
  show ?thesis
  proof (cases "num_layers_f ix0 = 0")
    case True
    have "reorganize ix0 = Done (?ix1\<lparr>inner_nodes_f := []\<rparr>)"
      using N True at0 atn pw by (simp add: reorganize_def Let_def base_reorganize_def)
    moreover have "built (?ix1\<lparr>inner_nodes_f := []\<rparr>)"
      using k N True srt bound by (simp add: built_def)
    ultimately show ?thesis by simp
  next
    case False
    have c: "k_f ?ix1 \<ge> 2" "size_f ?ix1 = length (container_f ?ix1)"
      "k_f ?ix1 ^ num_layers_f ?ix1 - 1 < size_f ?ix1" "num_layers_f ?ix1 \<noteq> 0"
      using k N False by simp_all
    have c5: "size_f ?ix1 \<le> 2 ^ 30" using bound by simp
    let ?inner0 = "replicate (k_f ix0 ^ num_layers_f ix0 - 1) (None :: 'k option)"
    have "length ?inner0 = k_f ?ix1 ^ num_layers_f ?ix1 - 1" by simp
    from construct_inner_layers_result [OF c this c5]
    obtain inner' where ci: "construct_inner_layers ?ix1 ?inner0 = Done inner'"
      and len: "length inner' = k_f ix0 ^ num_layers_f ix0 - 1"
      and cells: "\<forall>l n i. l < num_layers_f ix0 \<longrightarrow> n < k_f ix0 ^ l \<longrightarrow> i < k_f ix0 - 1 \<longrightarrow>
        inner' ! cell (k_f ix0) l n i = Some (pivot_key ?ix1 l n i)"
      by auto
    have "reorganize ix0 = Done (?ix1\<lparr>inner_nodes_f := inner'\<rparr>)"
      using N False at0 atn ci pw by (simp add: reorganize_def Let_def base_reorganize_def)
    moreover have "built (?ix1\<lparr>inner_nodes_f := inner'\<rparr>)"
      using k N srt len cells bound by (simp add: built_def pivot_key_def)
    ultimately show ?thesis by simp
  qed
qed

lemma reorganize_Done_built:
  fixes ix0 :: "('k::linorder, 'v) kary_index"
  assumes r: "reorganize ix0 = Done ix" and k: "k_f ix0 \<ge> 2"
    and bound: "length (table_f ix0) \<le> 2 ^ 30"
  shows "built ix \<and> container_f ix = sort_key key_f (table_f ix0) \<and> table_f ix = table_f ix0 \<and>
           k_f ix = k_f ix0 \<and> num_layers_f ix = num_layers_f ix0"
proof -
  have "k_f ix0 ^ num_layers_f ix0 - 1 < length (table_f ix0)"
    using r
    by (auto simp: reorganize_def Let_def base_reorganize_def pow_minus_1_def
          split: if_splits option.splits)
  from reorganize_result [OF k this bound] r show ?thesis by auto
qed

lemma pivot_position_bounds:
  assumes k: "k \<ge> 2" and N: "k ^ L - 1 < N" and l: "l < L" and n: "n < k ^ l" and i: "i < k - 1"
  shows "fst (node_range k N l n) \<le> pivot_position k N l n i"
    and "pivot_position k N l n i \<le> snd (node_range k N l n)"
    and "0 \<le> pivot_position k N l n i"
    and "pivot_position k N l n i < int N"
proof -
  obtain lo hi where r: "node_range k N l n = (lo, hi)" by (cases "node_range k N l n")
  have ok: "range_ok k N L l (lo, hi)" using range_ok_node [OF k N, of l n] l n r by simp
  note sf = step_facts [OF k l ok]
  let ?s = "partition_step k lo hi"
  have p: "pivot_position k N l n i = lo + ?s * (int i + 1)" by (simp add: pivot_position_def r)
  have a: "0 \<le> ?s * (int i + 1)" using sf(3) by simp
  have "?s * (int i + 1) \<le> ?s * int k" using i sf(3) by (intro mult_left_mono) auto
  then have b: "?s * (int i + 1) \<le> hi - lo" using sf(2) by (simp add: mult.commute)
  have lo0: "0 \<le> lo" and hiN: "hi \<le> int N - 1" using ok by (simp_all add: range_ok_def)
  show "fst (node_range k N l n) \<le> pivot_position k N l n i" using a by (simp add: p r)
  show "pivot_position k N l n i \<le> snd (node_range k N l n)" using b by (simp add: p r)
  show "0 \<le> pivot_position k N l n i" using a lo0 by (simp add: p)
  show "pivot_position k N l n i < int N" using b hiN by (simp add: p)
qed


lemma pivot_eq_loop_result:
  assumes km: "k_minus_1 (k_f ix) = k_f ix - 1"
    and cells: "\<And>i. i < k_f ix - 1 \<Longrightarrow> inner_at ix (to_size_t (int pos + int i)) = Some (f i)"
  shows "\<exists>r. pivot_eq_loop ix key pos i0 = Some r \<and>
     (case r of
        Some i \<Rightarrow> i0 \<le> i \<and> i < k_f ix - 1 \<and> f i = key \<and> (\<forall>i'. i0 \<le> i' \<and> i' < i \<longrightarrow> f i' \<noteq> key)
      | None \<Rightarrow> \<forall>i'. i0 \<le> i' \<and> i' < k_f ix - 1 \<longrightarrow> f i' \<noteq> key)"
proof (induction "k_f ix - 1 - i0" arbitrary: i0)
  case 0
  then have "\<not> i0 < k_f ix - 1" by simp
  then have "pivot_eq_loop ix key pos i0 = Some None"
    by (subst pivot_eq_loop.simps) (simp add: km)
  then show ?case using \<open>\<not> i0 < k_f ix - 1\<close> by auto
next
  case (Suc m)
  then have i: "i0 < k_f ix - 1" by simp
  show ?case
  proof (cases "key = f i0")
    case True
    have "pivot_eq_loop ix key pos i0 = Some (Some i0)"
      using i True cells [OF i] by (subst pivot_eq_loop.simps) (simp add: km)
    then show ?thesis using i True by auto
  next
    case False
    have e: "pivot_eq_loop ix key pos i0 = pivot_eq_loop ix key pos (i0 + 1)"
      using i False cells [OF i] by (subst pivot_eq_loop.simps) (simp add: km)
    have "m = k_f ix - 1 - (i0 + 1)" using Suc.hyps(2) by simp
    from Suc.hyps(1) [OF this] obtain r where r: "pivot_eq_loop ix key pos (i0 + 1) = Some r"
      and c: "case r of
        Some i \<Rightarrow> i0 + 1 \<le> i \<and> i < k_f ix - 1 \<and> f i = key \<and> (\<forall>i'. i0 + 1 \<le> i' \<and> i' < i \<longrightarrow> f i' \<noteq> key)
      | None \<Rightarrow> \<forall>i'. i0 + 1 \<le> i' \<and> i' < k_f ix - 1 \<longrightarrow> f i' \<noteq> key"
      by blast
    have step: "f i' \<noteq> key" if "i0 \<le> i'" "\<not> i0 + 1 \<le> i'" for i'
    proof -
      from that have "i' = i0" by simp
      with False show ?thesis by auto
    qed
    have "case r of
        Some i \<Rightarrow> i0 \<le> i \<and> i < k_f ix - 1 \<and> f i = key \<and> (\<forall>i'. i0 \<le> i' \<and> i' < i \<longrightarrow> f i' \<noteq> key)
      | None \<Rightarrow> \<forall>i'. i0 \<le> i' \<and> i' < k_f ix - 1 \<longrightarrow> f i' \<noteq> key"
    proof (cases r)
      case None
      with c step show ?thesis by auto
    next
      case (Some i)
      with c step show ?thesis by auto
    qed
    with e r show ?thesis by simp
  qed
qed

lemma pivot_lt_loop_result:
  fixes ix :: "('k::linorder, 'v) kary_index"
  assumes km: "k_minus_1 (k_f ix) = k_f ix - 1"
    and cells: "\<And>i. i < k_f ix - 1 \<Longrightarrow> inner_at ix (to_size_t (int pos + int i)) = Some (f i)"
  shows "\<exists>r. pivot_lt_loop ix key pos i0 = Some r \<and>
     (case r of
        Some i \<Rightarrow> i0 \<le> i \<and> i < k_f ix - 1 \<and> key < f i \<and> (\<forall>i'. i0 \<le> i' \<and> i' < i \<longrightarrow> \<not> key < f i')
      | None \<Rightarrow> \<forall>i'. i0 \<le> i' \<and> i' < k_f ix - 1 \<longrightarrow> \<not> key < f i')"
proof (induction "k_f ix - 1 - i0" arbitrary: i0)
  case 0
  then have "\<not> i0 < k_f ix - 1" by simp
  then have "pivot_lt_loop ix key pos i0 = Some None"
    by (subst pivot_lt_loop.simps) (simp add: km)
  then show ?case using \<open>\<not> i0 < k_f ix - 1\<close> by auto
next
  case (Suc m)
  then have i: "i0 < k_f ix - 1" by simp
  show ?case
  proof (cases "key < f i0")
    case True
    have "pivot_lt_loop ix key pos i0 = Some (Some i0)"
      using i True cells [OF i] by (subst pivot_lt_loop.simps) (simp add: km)
    then show ?thesis using i True by auto
  next
    case False
    have e: "pivot_lt_loop ix key pos i0 = pivot_lt_loop ix key pos (i0 + 1)"
      using i False cells [OF i] by (subst pivot_lt_loop.simps) (simp add: km)
    have "m = k_f ix - 1 - (i0 + 1)" using Suc.hyps(2) by simp
    from Suc.hyps(1) [OF this] obtain r where r: "pivot_lt_loop ix key pos (i0 + 1) = Some r"
      and c: "case r of
        Some i \<Rightarrow> i0 + 1 \<le> i \<and> i < k_f ix - 1 \<and> key < f i \<and> (\<forall>i'. i0 + 1 \<le> i' \<and> i' < i \<longrightarrow> \<not> key < f i')
      | None \<Rightarrow> \<forall>i'. i0 + 1 \<le> i' \<and> i' < k_f ix - 1 \<longrightarrow> \<not> key < f i'"
      by blast
    have step: "\<not> key < f i'" if "i0 \<le> i'" "\<not> i0 + 1 \<le> i'" for i'
    proof -
      from that have "i' = i0" by simp
      with False show ?thesis by auto
    qed
    have "case r of
        Some i \<Rightarrow> i0 \<le> i \<and> i < k_f ix - 1 \<and> key < f i \<and> (\<forall>i'. i0 \<le> i' \<and> i' < i \<longrightarrow> \<not> key < f i')
      | None \<Rightarrow> \<forall>i'. i0 \<le> i' \<and> i' < k_f ix - 1 \<longrightarrow> \<not> key < f i'"
    proof (cases r)
      case None
      with c step show ?thesis by auto
    next
      case (Some i)
      with c step show ?thesis by auto
    qed
    with e r show ?thesis by simp
  qed
qed

lemma descent_result_Suc:
  assumes "descent_result ix key (Suc l) r"
  shows "descent_result ix key l r"
proof -
  have "l \<le> l'" if "Suc l \<le> l'" for l' using that by simp
  with assms show ?thesis unfolding descent_result_def by blast
qed

lemma sorted_key_less:
  fixes C :: "('k::linorder, 'v) entry list"
  assumes "sorted (map key_f C)" "q < length C" "p < length C" "key_f (C ! q) < key_f (C ! p)"
  shows "q < p"
proof (rule ccontr)
  assume "\<not> q < p"
  then have "p \<le> q" by simp
  from sorted_nth_mono [OF assms(1) this] assms(2,3) have "key_f (C ! p) \<le> key_f (C ! q)" by simp
  with assms(4) show False by simp
qed

lemma built_cells:
  fixes ix :: "('k::linorder, 'v) kary_index"
  assumes b: "built ix" and l: "l < num_layers_f ix" and n: "n < k_f ix ^ l" and i: "i < k_f ix - 1"
  shows "inner_at ix (to_size_t (int (k_f ix ^ l - 1 + n * (k_f ix - 1)) + int i))
           = Some (pivot_key ix l n i)"
proof -
  have k: "k_f ix \<ge> 2" and N: "k_f ix ^ num_layers_f ix - 1 < size_f ix"
    and bound: "size_f ix \<le> 2 ^ 30" using b by (simp_all add: built_def)
  have "cell (k_f ix) l n i < length (inner_nodes_f ix)"
    using cell_bound [OF k l n i] b by (simp add: built_def)
  moreover have "inner_nodes_f ix ! cell (k_f ix) l n i = Some (pivot_key ix l n i)"
    using b l n i by (simp add: built_def)
  ultimately show ?thesis
    unfolding slot_index [OF k N l n i bound] by (simp add: inner_at_def cell_def)
qed

text \<open>A pivot of the node that equals the key ends the descent at the first such pivot.\<close>

lemma descent_hit:
  fixes ix :: "('k::linorder, 'v) kary_index"
  assumes b: "built ix" and l: "l < num_layers_f ix" and n: "n < k_f ix ^ l"
    and r: "node_range (k_f ix) (size_f ix) l n = (lo, hi)"
    and i: "i < k_f ix - 1" and hit: "pivot_key ix l n i = key"
    and first: "\<forall>i' < i. pivot_key ix l n i' \<noteq> key"
  shows "find_inner_layers_internal ix key lo hi (k_f ix ^ l - 1) (n * (k_f ix - 1)) l =
           Some (pivot_position (k_f ix) (size_f ix) l n i, pivot_position (k_f ix) (size_f ix) l n i)"
proof -
  let ?k = "k_f ix" and ?L = "num_layers_f ix" and ?N = "size_f ix"
  have k: "?k \<ge> 2" and N: "?k ^ ?L - 1 < ?N" and bound: "?N \<le> 2 ^ 30"
    using b by (simp_all add: built_def)
  have ok: "range_ok ?k ?N ?L l (lo, hi)"
    using range_ok_node [OF k N, of l n] l n r by simp
  note sf = step_facts [OF k l ok]
  define s where "s = nat (partition_step ?k lo hi)"
  have s: "int s = partition_step ?k lo hi"
    unfolding s_def by (rule node_step(2) [OF k l ok bound])
  have so: "step_offset_of ?k lo hi = Some s"
    unfolding s_def by (rule node_step(1) [OF k l ok bound])
  have km: "k_minus_1 ?k = ?k - 1" by (rule k_minus_1_node [OF k N l bound])
  note no = node_offsets [OF k l ok bound s_def]
  from pivot_eq_loop_result [of ix "?k ^ l - 1 + n * (?k - 1)" "pivot_key ix l n" key 0,
      OF km built_cells [OF b l n]]
  obtain h where h: "pivot_eq_loop ix key (?k ^ l - 1 + n * (?k - 1)) 0 = Some h"
    and c: "case h of
        Some j \<Rightarrow> j < ?k - 1 \<and> pivot_key ix l n j = key \<and> (\<forall>i' < j. pivot_key ix l n i' \<noteq> key)
      | None \<Rightarrow> \<forall>i' < ?k - 1. pivot_key ix l n i' \<noteq> key"
    by (auto split: option.splits)
  have "h = Some i"
  proof (cases h)
    case None
    with c i hit show ?thesis by auto
  next
    case (Some j)
    with c have j: "pivot_key ix l n j = key" "\<forall>i' < j. pivot_key ix l n i' \<noteq> key" by auto
    have "j = i"
    proof (rule ccontr)
      assume "j \<noteq> i"
      then consider "j < i" | "i < j" by linarith
      then show False using j hit first by cases auto
    qed
    with Some show ?thesis by simp
  qed
  with h have "pivot_eq_loop ix key (?k ^ l - 1 + n * (?k - 1)) 0 = Some (Some i)" by simp
  then show ?thesis using l
    by (subst find_inner_layers_internal.simps)
       (simp add: pivot_position_def r s so no(5) [OF i])
qed

lemma descent_step:
  fixes ix :: "('k::linorder, 'v) kary_index"
  assumes b: "built ix" and l: "l < num_layers_f ix" and n: "n < k_f ix ^ l"
    and r: "node_range (k_f ix) (size_f ix) l n = (lo, hi)"
    and occ: "\<forall>q < size_f ix. key_f (container_f ix ! q) = key \<longrightarrow> lo \<le> int q \<and> int q \<le> hi"
    and IH: "\<And>c. c < k_f ix \<Longrightarrow>
        (\<forall>q < size_f ix. key_f (container_f ix ! q) = key \<longrightarrow>
           fst (child_range (k_f ix) (lo, hi) c) \<le> int q \<and>
           int q \<le> snd (child_range (k_f ix) (lo, hi) c)) \<Longrightarrow>
        \<exists>r'. find_inner_layers_internal ix key
                (fst (child_range (k_f ix) (lo, hi) c)) (snd (child_range (k_f ix) (lo, hi) c))
                (k_f ix ^ Suc l - 1) ((n * k_f ix + c) * (k_f ix - 1)) (Suc l) = Some r' \<and>
              descent_result ix key (Suc l) r'"
  shows "\<exists>r'. find_inner_layers_internal ix key lo hi (k_f ix ^ l - 1) (n * (k_f ix - 1)) l = Some r' \<and>
           descent_result ix key l r'"
proof -
  let ?k = "k_f ix" and ?L = "num_layers_f ix" and ?N = "size_f ix" and ?C = "container_f ix"
  let ?ps = "partition_step ?k lo hi"
  define s where "s = nat ?ps"
  define bp where "bp = ?k ^ l - 1"
  define dp where "dp = n * (?k - 1)"
  define nb where "nb = (?k ^ l - 1 + 1) * ?k - 1"
  define nd where "nd = n * (?k - 1) * ?k"
  let ?pk = "pivot_key ix l n"
  let ?pp = "pivot_position ?k ?N l n"
  have k: "?k \<ge> 2" and N: "?k ^ ?L - 1 < ?N" and sz: "?N = length ?C"
    and srt: "sorted (map key_f ?C)" and bound: "?N \<le> 2 ^ 30"
    using b by (simp_all add: built_def)
  have ok: "range_ok ?k ?N ?L l (lo, hi)"
    using range_ok_node [OF k N, of l n] l n r by simp
  note sf = step_facts [OF k l ok]
  have s: "int s = ?ps" unfolding s_def by (rule node_step(2) [OF k l ok bound])
  have so: "step_offset_of ?k lo hi = Some s"
    unfolding s_def by (rule node_step(1) [OF k l ok bound])
  have km: "k_minus_1 ?k = ?k - 1" by (rule k_minus_1_node [OF k N l bound])
  have nxl: "next_layer_of l = l + 1" by (rule next_layer_node [OF k N l bound])
  have nbp: "new_base_pos_of ?k bp = nb"
    unfolding bp_def nb_def by (rule new_base_pos_node [OF k N l bound])
  have ndp: "new_dst_pos_of ?k dp = nd"
    unfolding dp_def nd_def by (rule new_dst_pos_node [OF k N l n bound])
  have ldp: "last_dst_pos ?k nd = nd + (?k - 1) * (?k - 1)"
    unfolding nd_def by (rule last_dst_pos_node [OF k N l n bound])
  have cdp: "child_dst_pos ?k nd c = nd + c * (?k - 1)" if "c < ?k" for c
    unfolding nd_def by (rule child_dst_pos_node [OF k N l n that bound])
  note no = node_offsets [OF k l ok bound s_def]
  have pp: "?pp i = lo + ?ps * (int i + 1)" for i by (simp add: pivot_position_def r)
  have pkey: "?pk i = key_f (?C ! nat (?pp i))" for i by (simp add: pivot_key_def)
  have nb: "nb = ?k ^ Suc l - 1" unfolding nb_def using k by (simp add: mult.commute)
  have nd: "nd + c * (?k - 1) = (n * ?k + c) * (?k - 1)" for c
    unfolding nd_def by (rule dst_child)
  have below: "int q < ?pp i" if "q < ?N" "key_f (?C ! q) = key" "key < ?pk i" "i < ?k - 1" for q i
  proof -
    note pb = pivot_position_bounds [OF k N l n that(4)]
    have "q < nat (?pp i)"
      using that pb sz by (rule_tac sorted_key_less [OF srt]) (simp_all add: pkey)
    then show ?thesis using pb by simp
  qed
  have above: "?pp i < int q" if "q < ?N" "key_f (?C ! q) = key" "?pk i < key" "i < ?k - 1" for q i
  proof -
    note pb = pivot_position_bounds [OF k N l n that(4)]
    have "nat (?pp i) < q"
      using that pb sz by (rule_tac sorted_key_less [OF srt]) (simp_all add: pkey)
    then show ?thesis using pb by simp
  qed
  from pivot_eq_loop_result [of ix "bp + dp" ?pk key 0,
      OF km built_cells [OF b l n, folded bp_def dp_def]]
  obtain h where h: "pivot_eq_loop ix key (bp + dp) 0 = Some h"
    and hc: "case h of
        Some j \<Rightarrow> j < ?k - 1 \<and> ?pk j = key \<and> (\<forall>i' < j. ?pk i' \<noteq> key)
      | None \<Rightarrow> \<forall>i' < ?k - 1. ?pk i' \<noteq> key"
    by (auto split: option.splits)
  have "\<exists>r'. find_inner_layers_internal ix key lo hi bp dp l = Some r' \<and>
           descent_result ix key l r'"
  proof (cases h)
    case (Some j)
    with hc have j: "j < ?k - 1" "?pk j = key" "\<forall>i' < j. ?pk i' \<noteq> key" by auto
    have "find_inner_layers_internal ix key lo hi bp dp l = Some (?pp j, ?pp j)"
      unfolding bp_def dp_def by (rule descent_hit [OF b l n r j])
    moreover have "descent_result ix key l (?pp j, ?pp j)"
      unfolding descent_result_def using l n j by blast
    ultimately show ?thesis by blast
  next
    case None
    with hc have ne: "\<And>i. i < ?k - 1 \<Longrightarrow> ?pk i \<noteq> key" by auto
    have k0: "0 < ?k - 1" using k by simp
    have p0: "inner_at ix (to_size_t (int bp + int dp)) = Some (?pk 0)"
      using built_cells [OF b l n k0] unfolding bp_def dp_def by simp
    have child: "\<exists>r'. find_inner_layers_internal ix key
                (fst (child_range ?k (lo, hi) c)) (snd (child_range ?k (lo, hi) c))
                nb (nd + c * (?k - 1)) (l + 1) = Some r' \<and> descent_result ix key l r'"
      if "c < ?k" "\<forall>q < ?N. key_f (?C ! q) = key \<longrightarrow>
           fst (child_range ?k (lo, hi) c) \<le> int q \<and> int q \<le> snd (child_range ?k (lo, hi) c)" for c
      using IH [OF that] unfolding nb nd by (auto intro: descent_result_Suc)
    show ?thesis
    proof (cases "key < ?pk 0")
      case True
      have c0: "child_range ?k (lo, hi) 0 = (lo, lo + int s - 1)"
        by (simp add: child_range_def s)
      have "\<forall>q < ?N. key_f (?C ! q) = key \<longrightarrow> lo \<le> int q \<and> int q \<le> lo + int s - 1"
      proof (intro allI impI)
        fix q assume q: "q < ?N" "key_f (?C ! q) = key"
        from below [OF q True k0] have "int q < lo + ?ps" by (simp add: pp)
        with occ q show "lo \<le> int q \<and> int q \<le> lo + int s - 1" by (simp add: s)
      qed
      then have occ0: "\<forall>q < ?N. key_f (?C ! q) = key \<longrightarrow>
          fst (child_range ?k (lo, hi) 0) \<le> int q \<and> int q \<le> snd (child_range ?k (lo, hi) 0)"
        by (simp only: c0 fst_conv snd_conv)
      have "0 < ?k" using k by simp
      from child [OF this occ0, unfolded c0 fst_conv snd_conv]
      obtain r' where "find_inner_layers_internal ix key lo (lo + int s - 1) nb
            (nd + 0 * (?k - 1)) (l + 1) = Some r'"
        and "descent_result ix key l r'" by blast
      moreover have "find_inner_layers_internal ix key lo hi bp dp l =
          find_inner_layers_internal ix key lo (lo + int s - 1) nb (nd + 0 * (?k - 1)) (l + 1)"
        using l h None p0 True
        by (subst find_inner_layers_internal.simps) (simp add: so nxl nbp ndp no(1))
      ultimately show ?thesis by simp
    next
      case False
      from pivot_lt_loop_result [of ix "bp + dp" ?pk key 1,
          OF km built_cells [OF b l n, folded bp_def dp_def]]
      obtain g where g: "pivot_lt_loop ix key (bp + dp) 1 = Some g"
        and gc: "case g of
            Some c \<Rightarrow> 1 \<le> c \<and> c < ?k - 1 \<and> key < ?pk c \<and> (\<forall>i'. 1 \<le> i' \<and> i' < c \<longrightarrow> \<not> key < ?pk i')
          | None \<Rightarrow> \<forall>i'. 1 \<le> i' \<and> i' < ?k - 1 \<longrightarrow> \<not> key < ?pk i'"
        by blast
      show ?thesis
      proof (cases g)
        case (Some c)
        with gc have c: "1 \<le> c" "c < ?k - 1" "key < ?pk c"
          and nl: "\<And>i'. 1 \<le> i' \<Longrightarrow> i' < c \<Longrightarrow> \<not> key < ?pk i'" by auto
        have "\<not> key < ?pk (c - 1)"
        proof (cases "c = 1")
          case True
          with False show ?thesis by simp
        next
          case False
          with c show ?thesis by (intro nl) auto
        qed
        moreover have "?pk (c - 1) \<noteq> key" using c by (intro ne) auto
        ultimately have gt: "?pk (c - 1) < key" by auto
        have cr: "child_range ?k (lo, hi) c = (lo + int s * int c + 1, lo + int s * (int c + 1) - 1)"
          using c by (simp add: child_range_def s Let_def)
        have "\<forall>q < ?N. key_f (?C ! q) = key \<longrightarrow>
            lo + int s * int c + 1 \<le> int q \<and> int q \<le> lo + int s * (int c + 1) - 1"
        proof (intro allI impI)
          fix q assume q: "q < ?N" "key_f (?C ! q) = key"
          have "c - 1 < ?k - 1" using c by simp
          from above [OF q gt this] c have "lo + ?ps * int c < int q"
            by (simp add: pp of_nat_diff)
          moreover from below [OF q c(3) c(2)] have "int q < lo + ?ps * (int c + 1)"
            by (simp add: pp)
          ultimately show "lo + int s * int c + 1 \<le> int q \<and> int q \<le> lo + int s * (int c + 1) - 1"
            by (simp add: s)
        qed
        then have occc: "\<forall>q < ?N. key_f (?C ! q) = key \<longrightarrow>
            fst (child_range ?k (lo, hi) c) \<le> int q \<and> int q \<le> snd (child_range ?k (lo, hi) c)"
          by (simp only: cr fst_conv snd_conv)
        have "c < ?k" using c by simp
        from child [OF this occc, unfolded cr fst_conv snd_conv]
        obtain r' where "find_inner_layers_internal ix key (lo + int s * int c + 1)
            (lo + int s * (int c + 1) - 1) nb (nd + c * (?k - 1)) (l + 1) = Some r'"
          and "descent_result ix key l r'" by blast
        moreover have "find_inner_layers_internal ix key lo hi bp dp l =
            find_inner_layers_internal ix key (lo + int s * int c + 1)
              (lo + int s * (int c + 1) - 1) nb (nd + c * (?k - 1)) (l + 1)"
          using l h None p0 False g Some
          by (subst find_inner_layers_internal.simps)
             (simp add: so nxl nbp ndp no(3) [OF c(2)] no(4) [OF c(2)] cdp [OF \<open>c < ?k\<close>])
        ultimately show ?thesis by simp
      next
        case None2: None
        with gc have nl: "\<And>i'. 1 \<le> i' \<Longrightarrow> i' < ?k - 1 \<Longrightarrow> \<not> key < ?pk i'" by auto
        have "\<not> key < ?pk (?k - 2)"
        proof (cases "?k = 2")
          case True
          with False show ?thesis by simp
        next
          case False
          with k show ?thesis by (intro nl) auto
        qed
        moreover have "?pk (?k - 2) \<noteq> key" using k by (intro ne) auto
        ultimately have gt: "?pk (?k - 2) < key" by auto
        have cr: "child_range ?k (lo, hi) (?k - 1) = (lo + int s * int (?k - 1) + 1, hi)"
          using k by (simp add: child_range_def s Let_def)
        have "\<forall>q < ?N. key_f (?C ! q) = key \<longrightarrow>
            lo + int s * int (?k - 1) + 1 \<le> int q \<and> int q \<le> hi"
        proof (intro allI impI)
          fix q assume q: "q < ?N" "key_f (?C ! q) = key"
          have "?k - 2 < ?k - 1" using k by simp
          from above [OF q gt this] k have "lo + ?ps * int (?k - 1) < int q"
            by (simp add: pp of_nat_diff)
          with occ q show "lo + int s * int (?k - 1) + 1 \<le> int q \<and> int q \<le> hi"
            by (simp add: s)
        qed
        then have occl: "\<forall>q < ?N. key_f (?C ! q) = key \<longrightarrow>
            fst (child_range ?k (lo, hi) (?k - 1)) \<le> int q \<and>
            int q \<le> snd (child_range ?k (lo, hi) (?k - 1))"
          by (simp only: cr fst_conv snd_conv)
        have "?k - 1 < ?k" using k by simp
        from child [OF this occl, unfolded cr fst_conv snd_conv]
        obtain r' where "find_inner_layers_internal ix key (lo + int s * int (?k - 1) + 1) hi
            nb (nd + (?k - 1) * (?k - 1)) (l + 1) = Some r'"
          and "descent_result ix key l r'" by blast
        moreover have "find_inner_layers_internal ix key lo hi bp dp l =
            find_inner_layers_internal ix key (lo + int s * int (?k - 1) + 1) hi
              nb (nd + (?k - 1) * (?k - 1)) (l + 1)"
          using l h None p0 False g None2
          by (subst find_inner_layers_internal.simps) (simp add: so nxl nbp ndp ldp no(2))
        ultimately show ?thesis by simp
      qed
    qed
  qed
  then show ?thesis unfolding bp_def dp_def .
qed

lemma descent:
  fixes ix :: "('k::linorder, 'v) kary_index"
  assumes b: "built ix"
  shows "l \<le> num_layers_f ix \<Longrightarrow> n < k_f ix ^ l \<Longrightarrow>
     node_range (k_f ix) (size_f ix) l n = (lo, hi) \<Longrightarrow>
     (\<forall>q < size_f ix. key_f (container_f ix ! q) = key \<longrightarrow> lo \<le> int q \<and> int q \<le> hi) \<Longrightarrow>
     \<exists>r'. find_inner_layers_internal ix key lo hi (k_f ix ^ l - 1) (n * (k_f ix - 1)) l = Some r' \<and>
           descent_result ix key l r'"
proof (induction "num_layers_f ix - l" arbitrary: l n lo hi)
  case 0
  then have l: "num_layers_f ix = l" by simp
  have "find_inner_layers_internal ix key lo hi (k_f ix ^ l - 1) (n * (k_f ix - 1)) l = Some (lo, hi)"
    using l by (subst find_inner_layers_internal.simps) simp
  moreover have "descent_result ix key l (lo, hi)"
    unfolding descent_result_def using 0 l by (intro disjI2 exI [of _ n]) auto
  ultimately show ?case by blast
next
  case (Suc m)
  then have l: "l < num_layers_f ix" by simp
  have k: "k_f ix \<ge> 2" using b by (simp add: built_def)
  show ?case
  proof (rule descent_step [OF b l Suc.prems(2) Suc.prems(3) Suc.prems(4)])
    fix c assume c: "c < k_f ix"
      and occ: "\<forall>q < size_f ix. key_f (container_f ix ! q) = key \<longrightarrow>
           fst (child_range (k_f ix) (lo, hi) c) \<le> int q \<and>
           int q \<le> snd (child_range (k_f ix) (lo, hi) c)"
    have "n * k_f ix + c < Suc n * k_f ix" using c by simp
    also have "\<dots> \<le> k_f ix ^ l * k_f ix" using Suc.prems(2) by (intro mult_le_mono1) simp
    finally have n': "n * k_f ix + c < k_f ix ^ Suc l" by (simp add: mult.commute)
    have nr: "node_range (k_f ix) (size_f ix) (Suc l) (n * k_f ix + c) =
        (fst (child_range (k_f ix) (lo, hi) c), snd (child_range (k_f ix) (lo, hi) c))"
      using c Suc.prems(3) by simp
    have m: "m = num_layers_f ix - Suc l" using Suc.hyps(2) by simp
    from Suc.hyps(1) [OF m _ n' nr occ] l
    show "\<exists>r'. find_inner_layers_internal ix key
                (fst (child_range (k_f ix) (lo, hi) c)) (snd (child_range (k_f ix) (lo, hi) c))
                (k_f ix ^ Suc l - 1) ((n * k_f ix + c) * (k_f ix - 1)) (Suc l) = Some r' \<and>
              descent_result ix key (Suc l) r'"
      by simp
  qed
qed

lemma find_inner_layers_root:
  fixes ix :: "('k::linorder, 'v) kary_index"
  assumes L: "num_layers_f ix \<noteq> 0" and N1: "size_f ix \<ge> 1" and bound: "size_f ix \<le> 2 ^ 30"
  shows "find_inner_layers ix key =
           find_inner_layers_internal ix key 0 (int (size_f ix) - 1) 0 0 0"
proof -
  have "int (size_f ix) \<le> int (2 ^ 30)" using bound by (simp only: of_nat_le_iff)
  then have b31: "int (size_f ix) - 1 < 2 ^ 31" by simp
  have ti: "to_int (int (size_f ix) - 1) = int (size_f ix) - 1"
    using N1 b31 by (intro to_int_id) simp_all
  have z: "new_dst_pos_of (k_f ix) 0 = 0" "next_layer_of 0 = 1"
    "new_base_pos_of (k_f ix) 0 = k_minus_1 (k_f ix)" "to_size_t 0 = 0"
    by (simp_all add: to_size_t_def new_dst_pos_of_def next_layer_of_def
          new_base_pos_of_def k_minus_1_def)
  note defs = find_inner_layers_def Let_def ti z
  show ?thesis
  proof (cases "step_offset_of (k_f ix) 0 (int (size_f ix) - 1)")
    case None
    then show ?thesis using L
      by (subst find_inner_layers_internal.simps) (simp add: defs)
  next
    case st: (Some s)
    show ?thesis
    proof (cases "pivot_eq_loop ix key 0 0")
      case None
      with st show ?thesis using L
        by (subst find_inner_layers_internal.simps) (simp add: defs)
    next
      case (Some h)
      show ?thesis
      proof (cases h)
        case hit: (Some i)
        with st Some show ?thesis using L
          by (subst find_inner_layers_internal.simps) (simp add: defs)
      next
        case nohit: None
        show ?thesis
        proof (cases "inner_at ix 0")
          case None
          with st Some nohit show ?thesis using L
            by (subst find_inner_layers_internal.simps) (simp add: defs)
        next
          case p0: (Some p)
          show ?thesis
          proof (cases "key < p")
            case True
            with st Some nohit p0 show ?thesis using L
              by (subst find_inner_layers_internal.simps) (simp add: defs)
          next
            case False
            show ?thesis
            proof (cases "pivot_lt_loop ix key 0 1")
              case None
              with st Some nohit p0 False show ?thesis using L
                by (subst find_inner_layers_internal.simps) (simp add: defs)
            next
              case g: (Some c)
              with st Some nohit p0 False show ?thesis using L
                by (subst find_inner_layers_internal.simps) (cases c; simp add: defs)
            qed
          qed
        qed
      qed
    qed
  qed
qed

lemma sdiv2_nonneg: "0 \<le> a \<Longrightarrow> a sdiv 2 = a div 2" for a :: int
  by (simp add: signed_divide_int_def sgn_if)

lemma find_internal_result:
  fixes ix :: "('k::linorder, 'v) kary_index"
  assumes sz: "size_f ix = length (container_f ix)"
    and srt: "sorted (map key_f (container_f ix))"
    and bound: "size_f ix \<le> 2 ^ 30"
  shows "0 \<le> b \<Longrightarrow> e \<le> int (size_f ix) \<Longrightarrow>
     (e = int (size_f ix) \<longrightarrow>
        b < int (size_f ix) \<and> key \<le> key_f (container_f ix ! (size_f ix - 1))) \<Longrightarrow>
     \<exists>r. find_internal ix key b e = Some r \<and>
       ((r = size_f ix \<and>
           (\<forall>q < size_f ix. b \<le> int q \<and> int q \<le> e \<longrightarrow> key_f (container_f ix ! q) \<noteq> key)) \<or>
        (b \<le> int r \<and> int r \<le> e \<and> r < size_f ix \<and> key_f (container_f ix ! r) = key))"
proof (induction "nat (e - b + 1)" arbitrary: b e rule: less_induct)
  case less
  let ?N = "size_f ix" and ?C = "container_f ix"
  have mono: "key_f (?C ! a) \<le> key_f (?C ! c)" if "a \<le> c" "c < ?N" for a c
    using sorted_nth_mono [OF srt, of a c] that sz by simp
  show ?case
  proof (cases "b > e")
    case True
    then have "find_internal ix key b e = Some ?N"
      by (subst find_internal.simps) simp
    then show ?thesis using True by auto
  next
    case False
    then have be: "b \<le> e" by simp
    define mid where "mid = (b + e) sdiv 2"
    have mid: "mid = (b + e) div 2" using less.prems(1) be by (simp add: mid_def sdiv2_nonneg)
    have m1: "b \<le> mid" "mid \<le> e" using be mid by simp_all
    have mN: "mid < int ?N"
    proof (cases "e = int ?N")
      case True
      with less.prems(3) have "b < int ?N" by simp
      with True mid show ?thesis by simp
    next
      case False
      with less.prems(2) m1 show ?thesis by simp
    qed
    have m0: "0 \<le> mid" using m1 less.prems(1) by simp
    have at: "container_at ix mid = Some (?C ! nat mid)"
      using m0 mN sz by (simp add: container_at_def)
    have N30: "int ?N \<le> 2 ^ 30"
    proof -
      have "int ?N \<le> int (2 ^ 30)" using bound by (simp only: of_nat_le_iff)
      then show ?thesis by simp
    qed
    have "b + e < 2 * int ?N"
    proof (cases "e = int ?N")
      case True
      with less.prems(3) show ?thesis by simp
    next
      case False
      with less.prems(2) be show ?thesis by simp
    qed
    then have ir: "int_result (b + e) = Some (b + e)"
      using less.prems(1) be by (intro int_result_offset [OF _ _ bound]) simp_all
    have ir1: "int_result (mid + 1) = Some (mid + 1)"
      using m0 mN N30 by (intro int_result_Some) simp_all
    have ir2: "int_result (mid - 1) = Some (mid - 1)"
      using m0 mN N30 by (intro int_result_Some) simp_all
    have ts: "to_size_t mid = nat mid"
      using m0 mN N30 by (intro to_size_t_id) simp_all
    consider "key = key_f (?C ! nat mid)" | "key > key_f (?C ! nat mid)" | "key < key_f (?C ! nat mid)"
      by (metis not_less_iff_gr_or_eq)
    then show ?thesis
    proof cases
      case 1
      then have "find_internal ix key b e = Some (nat mid)"
        using be at ts by (subst find_internal.simps) (simp add: mid_def ir)
      then show ?thesis using 1 m1 mN m0 by auto
    next
      case 2
      have e: "find_internal ix key b e = find_internal ix key (mid + 1) e"
        using be at 2 ir1 by (subst find_internal.simps) (auto simp: mid_def ir)
      have pre3: "e = int ?N \<longrightarrow> mid + 1 < int ?N \<and> key \<le> key_f (?C ! (?N - 1))"
      proof
        assume eN: "e = int ?N"
        with less.prems(3) have kmax: "key \<le> key_f (?C ! (?N - 1))" by simp
        have "nat mid \<noteq> ?N - 1" using 2 kmax by auto
        then have "mid + 1 < int ?N" using mN m0 by linarith
        with kmax show "mid + 1 < int ?N \<and> key \<le> key_f (?C ! (?N - 1))" by simp
      qed
      have "nat (e - (mid + 1) + 1) < nat (e - b + 1)" using m1 by simp
      from less.hyps [OF this _ less.prems(2) pre3] m0
      obtain r where r: "find_internal ix key (mid + 1) e = Some r"
        and rc: "(r = ?N \<and>
           (\<forall>q < ?N. mid + 1 \<le> int q \<and> int q \<le> e \<longrightarrow> key_f (?C ! q) \<noteq> key)) \<or>
        (mid + 1 \<le> int r \<and> int r \<le> e \<and> r < ?N \<and> key_f (?C ! r) = key)"
        by auto
      have left: "key_f (?C ! q) \<noteq> key" if "q < ?N" "int q \<le> mid" for q
      proof -
        have "key_f (?C ! q) \<le> key_f (?C ! nat mid)"
          using that mN m0 by (intro mono) auto
        with 2 show ?thesis by auto
      qed
      from rc show ?thesis
      proof
        assume a: "r = ?N \<and>
           (\<forall>q < ?N. mid + 1 \<le> int q \<and> int q \<le> e \<longrightarrow> key_f (?C ! q) \<noteq> key)"
        have "key_f (?C ! q) \<noteq> key" if "q < ?N" "b \<le> int q" "int q \<le> e" for q
        proof (cases "int q \<le> mid")
          case True
          with left that show ?thesis by simp
        next
          case False
          with a that show ?thesis by simp
        qed
        with a e r show ?thesis by auto
      next
        assume "mid + 1 \<le> int r \<and> int r \<le> e \<and> r < ?N \<and> key_f (?C ! r) = key"
        with e r m1 show ?thesis by auto
      qed
    next
      case 3
      have e: "find_internal ix key b e = find_internal ix key b (mid - 1)"
        using be at 3 ir2 by (subst find_internal.simps) (auto simp: mid_def ir)
      have "nat (mid - 1 - b + 1) < nat (e - b + 1)" using m1 by simp
      from less.hyps [OF this less.prems(1)] mN
      obtain r where r: "find_internal ix key b (mid - 1) = Some r"
        and rc: "(r = ?N \<and>
           (\<forall>q < ?N. b \<le> int q \<and> int q \<le> mid - 1 \<longrightarrow> key_f (?C ! q) \<noteq> key)) \<or>
        (b \<le> int r \<and> int r \<le> mid - 1 \<and> r < ?N \<and> key_f (?C ! r) = key)"
        by auto
      have right: "key_f (?C ! q) \<noteq> key" if "q < ?N" "mid \<le> int q" for q
      proof -
        have "key_f (?C ! nat mid) \<le> key_f (?C ! q)"
          using that m0 by (intro mono) auto
        with 3 show ?thesis by auto
      qed
      from rc show ?thesis
      proof
        assume a: "r = ?N \<and>
           (\<forall>q < ?N. b \<le> int q \<and> int q \<le> mid - 1 \<longrightarrow> key_f (?C ! q) \<noteq> key)"
        have "key_f (?C ! q) \<noteq> key" if "q < ?N" "b \<le> int q" "int q \<le> e" for q
        proof (cases "mid \<le> int q")
          case True
          with right that show ?thesis by simp
        next
          case False
          with a that show ?thesis by simp
        qed
        with a e r show ?thesis by auto
      next
        assume "b \<le> int r \<and> int r \<le> mid - 1 \<and> r < ?N \<and> key_f (?C ! r) = key"
        with e r m1 show ?thesis by auto
      qed
    qed
  qed
qed

lemma container_at_nat:
  "n < length (container_f ix) \<Longrightarrow> container_at ix (int n) = Some (container_f ix ! n)"
  by (simp add: container_at_def)

lemma size_int_bound: "(N::nat) \<le> 2 ^ 30 \<Longrightarrow> int N \<le> 2 ^ 30"
proof -
  assume "N \<le> 2 ^ 30"
  then have "int N \<le> int (2 ^ 30)" by (simp only: of_nat_le_iff)
  then show ?thesis by simp
qed

lemma move_right_cond:
  assumes "1 \<le> N" "N \<le> 2 ^ 30" "0 \<le> j" "j \<le> int N"
  shows "(to_size_t j \<le> to_size_t (int N - 1)) = (j \<le> int N - 1)"
proof -
  note b = size_int_bound [OF assms(2)]
  have "to_size_t j = nat j" using assms b by (intro to_size_t_id) simp_all
  moreover have "to_size_t (int N - 1) = nat (int N - 1)"
    using assms b by (intro to_size_t_id) simp_all
  moreover have "(nat j \<le> nat (int N - 1)) = (j \<le> int N - 1)" using assms by linarith
  ultimately show ?thesis by (simp only:)
qed



lemma push_all_result:
  assumes "size_f ix = length (container_f ix)"
  shows "i \<le> size_f ix \<Longrightarrow>
     push_all ix i values = Some (values @ map value_f (drop i (container_f ix)))"
proof (induction "size_f ix - i" arbitrary: i "values")
  case 0
  then have "i = size_f ix" by simp
  then show ?case using assms by (subst push_all.simps) simp
next
  case (Suc m)
  then have i: "i < size_f ix" by simp
  then have at: "container_at ix (int i) = Some (container_f ix ! i)"
    using assms by (simp add: container_at_def)
  have "m = size_f ix - (i + 1)" using Suc.hyps(2) by simp
  from Suc.hyps(1) [OF this] i
  have "push_all ix (i + 1) (values @ [value_f (container_f ix ! i)]) =
      Some ((values @ [value_f (container_f ix ! i)]) @ map value_f (drop (i + 1) (container_f ix)))"
    by simp
  moreover have "drop i (container_f ix) = container_f ix ! i # drop (i + 1) (container_f ix)"
    using i assms by (simp add: Cons_nth_drop_Suc)
  ultimately show ?case using i at by (subst push_all.simps) simp
qed

text \<open>The scans over a snapshot \<open>A @ X @ B\<close> whose middle part holds the key.\<close>

lemma move_left_run:
  assumes C: "container_f ix = A @ X @ B"
    and X: "\<forall>x \<in> set X. key_f x = key"
    and A: "A \<noteq> [] \<longrightarrow> key_f (last A) \<noteq> key"
    and bound: "length (container_f ix) \<le> 2 ^ 30"
  shows "t \<le> length X \<Longrightarrow>
     move_left ix key (int (length A + t) - 1) values
       = Some (values @ map value_f (rev (take t X)))"
proof (induction t arbitrary: "values")
  case 0
  show ?case
  proof (cases "A = []")
    case True
    then show ?thesis by (subst move_left.simps) simp
  next
    case False
    then have la: "length A > 0" by simp
    then have n: "nat (int (length A) - 1) = length A - 1" by simp
    have p0: "int (length A) - 1 \<ge> 0" using la by simp
    have "(A @ X @ B) ! (length A - 1) = last A"
      using la False by (simp add: nth_append last_conv_nth)
    then have "container_at ix (int (length A) - 1) = Some (last A)"
      using C la p0 by (simp add: container_at_def n)
    moreover note p0
    ultimately show ?thesis using A False by (subst move_left.simps) simp
  qed
next
  case (Suc t)
  then have t: "t < length X" by simp
  have at: "container_at ix (int (length A + t)) = Some (X ! t)"
  proof -
    have "length A + t < length (container_f ix)" using C t by simp
    then have "container_at ix (int (length A + t)) = Some (container_f ix ! (length A + t))"
      by (rule container_at_nat)
    also have "container_f ix ! (length A + t) = X ! t" using C t by (simp add: nth_append)
    finally show ?thesis .
  qed
  have kx: "key_f (X ! t) = key" using X t by simp
  have "int (length A + t) < int (length (container_f ix))" using C t by simp
  then have ir: "int_result (int (length A + t) - 1) = Some (int (length A + t) - 1)"
    using size_int_bound [OF bound] by (intro int_result_Some) simp_all
  have "move_left ix key (int (length A + Suc t) - 1) values =
      move_left ix key (int (length A + t) - 1) (values @ [value_f (X ! t)])"
    using at kx ir by (subst move_left.simps) simp
  also have "\<dots> = Some ((values @ [value_f (X ! t)]) @ map value_f (rev (take t X)))"
    using Suc t by simp
  also have "(values @ [value_f (X ! t)]) @ map value_f (rev (take t X)) =
      values @ map value_f (rev (take (Suc t) X))"
    using t by (simp add: take_Suc_conv_app_nth)
  finally show ?case .
qed

lemma move_right_run:
  assumes C: "container_f ix = A @ X @ B" and sz: "size_f ix = length (container_f ix)"
    and X: "\<forall>x \<in> set X. key_f x = key"
    and B: "B \<noteq> [] \<longrightarrow> key_f (hd B) \<noteq> key"
    and bound: "size_f ix \<le> 2 ^ 30" and N1: "1 \<le> size_f ix"
  shows "t \<le> length X \<Longrightarrow>
     move_right ix key (int (length A + t)) values = Some (values @ map value_f (drop t X))"
proof (induction "length X - t" arbitrary: t "values")
  case 0
  then have t: "t = length X" by simp
  have le: "int (length A + t) \<le> int (size_f ix)" using C sz t by simp
  note cond = move_right_cond [OF N1 bound _ le]
  show ?case
  proof (cases "B = []")
    case True
    then have "\<not> int (length A + t) \<le> int (size_f ix) - 1" using C sz t by simp
    then have "\<not> to_size_t (int (length A + t)) \<le> to_size_t (int (size_f ix) - 1)"
      using cond by simp
    then show ?thesis using t by (subst move_right.simps) simp
  next
    case False
    then have hb: "(A @ X @ B) ! (length A + t) = hd B"
      using t by (simp add: nth_append hd_conv_nth)
    have "length A + t < length (container_f ix)" using False C t by simp
    then have "container_at ix (int (length A + t)) = Some (container_f ix ! (length A + t))"
      by (rule container_at_nat)
    with hb C have "container_at ix (int (length A + t)) = Some (hd B)" by simp
    moreover have "int (length A + t) \<le> int (size_f ix) - 1"
      using False C sz t by (cases B) auto
    then have "to_size_t (int (length A + t)) \<le> to_size_t (int (size_f ix) - 1)"
      using cond by simp
    ultimately show ?thesis using B False t by (subst move_right.simps) simp
  qed
next
  case (Suc m)
  then have t: "t < length X" by simp
  have at: "container_at ix (int (length A + t)) = Some (X ! t)"
  proof -
    have "length A + t < length (container_f ix)" using C t by simp
    then have "container_at ix (int (length A + t)) = Some (container_f ix ! (length A + t))"
      by (rule container_at_nat)
    also have "container_f ix ! (length A + t) = X ! t" using C t by (simp add: nth_append)
    finally show ?thesis .
  qed
  have le: "int (length A + t) \<le> int (size_f ix) - 1" using C sz t by simp
  then have c: "to_size_t (int (length A + t)) \<le> to_size_t (int (size_f ix) - 1)"
    using move_right_cond [OF N1 bound, of "int (length A + t)"] by simp
  have ir: "int_result (int (length A + t) + 1) = Some (int (length A + t) + 1)"
    using le size_int_bound [OF bound] by (intro int_result_Some) simp_all
  have kx: "key_f (X ! t) = key" using X t by simp
  have "m = length X - Suc t" using Suc.hyps(2) by simp
  from Suc.hyps(1) [OF this] t
  have "move_right ix key (int (length A + Suc t)) (values @ [value_f (X ! t)]) =
      Some ((values @ [value_f (X ! t)]) @ map value_f (drop (Suc t) X))"
    by simp
  moreover have "move_right ix key (int (length A + t)) values =
      move_right ix key (int (length A + Suc t)) (values @ [value_f (X ! t)])"
    using at kx c ir by (subst move_right.simps) (simp add: add.commute add.left_commute)
  moreover have "drop t X = X ! t # drop (Suc t) X" using t by (simp add: Cons_nth_drop_Suc)
  ultimately show ?case by simp
qed

text \<open>A snapshot sorted by key splits around the entries of one key.\<close>

lemma sorted_split_key:
  fixes C :: "('k::linorder, 'v) entry list"
  assumes "sorted (map key_f C)"
  shows "C = filter (\<lambda>x. key_f x < key) C @ filter (\<lambda>x. key_f x = key) C
             @ filter (\<lambda>x. key < key_f x) C"
  using assms
proof (induction C)
  case Nil
  then show ?case by simp
next
  case (Cons x C)
  then have ge: "\<forall>y \<in> set C. key_f x \<le> key_f y" and IH: "C = filter (\<lambda>x. key_f x < key) C @
      filter (\<lambda>x. key_f x = key) C @ filter (\<lambda>x. key < key_f x) C"
    by auto
  consider "key_f x < key" | "key_f x = key" | "key < key_f x" by (metis not_less_iff_gr_or_eq)
  then show ?case
  proof cases
    case 1
    with IH show ?thesis by auto
  next
    case 2
    with ge have "filter (\<lambda>x. key_f x < key) C = []" by (auto simp: filter_empty_conv)
    with 2 IH show ?thesis by auto
  next
    case 3
    with ge have "filter (\<lambda>x. key_f x < key) C = []" "filter (\<lambda>x. key_f x = key) C = []"
      by (auto simp: filter_empty_conv)
    with 3 IH show ?thesis by auto
  qed
qed

text \<open>
  The position at which \<^verbatim>\<open>find\<close> starts its outward scan, for a key between two
  different extreme keys: either the size (nothing found, and then the key is absent) or
  a position of the snapshot that holds the key whenever the key is present.
\<close>

lemma anchor_result:
  fixes ix :: "('k::linorder, 'v) kary_index"
  assumes b: "built ix"
    and lo: "key_f (container_f ix ! 0) \<le> key"
    and hi: "key \<le> key_f (container_f ix ! (size_f ix - 1))"
    and ne: "key_f (container_f ix ! 0) \<noteq> key_f (container_f ix ! (size_f ix - 1))"
  shows "\<exists>r. (find_inner_layers ix key \<bind>
              (\<lambda>offset_range. if fst offset_range = snd offset_range
                 then Some (to_size_t (fst offset_range))
                 else find_internal ix key (fst offset_range) (snd offset_range))) = Some r \<and>
           ((r = size_f ix \<and> (\<forall>q < size_f ix. key_f (container_f ix ! q) \<noteq> key)) \<or>
            (r < size_f ix \<and>
               ((\<exists>q < size_f ix. key_f (container_f ix ! q) = key) \<longrightarrow>
                  key_f (container_f ix ! r) = key)))"
proof -
  let ?k = "k_f ix" and ?L = "num_layers_f ix" and ?N = "size_f ix" and ?C = "container_f ix"
  have k: "?k \<ge> 2" and N: "?k ^ ?L - 1 < ?N" and sz: "?N = length ?C"
    and srt: "sorted (map key_f ?C)" and bound: "?N \<le> 2 ^ 30"
    using b by (simp_all add: built_def)
  note N30 = size_int_bound [OF bound]
  have ts: "to_size_t p = nat p" if "0 \<le> p" "p < int ?N" for p
    using that N30 by (intro to_size_t_id) simp_all
  have N2: "?N \<ge> 2"
  proof (rule ccontr)
    assume "\<not> ?N \<ge> 2"
    then have "?N - 1 = 0" by simp
    with ne show False by simp
  qed
  show ?thesis
  proof (cases "?L = 0")
    case True
    have "to_int (int ?N) = int ?N" using N30 by (intro to_int_id) simp_all
    then have fl: "find_inner_layers ix key = Some (0, int ?N)"
      using True by (simp add: find_inner_layers_def)
    from find_internal_result [OF sz srt bound, of 0 "int ?N" key] hi N2
    obtain r where r: "find_internal ix key 0 (int ?N) = Some r"
      and rc: "(r = ?N \<and> (\<forall>q < ?N. 0 \<le> int q \<and> int q \<le> int ?N \<longrightarrow> key_f (?C ! q) \<noteq> key)) \<or>
        (0 \<le> int r \<and> int r \<le> int ?N \<and> r < ?N \<and> key_f (?C ! r) = key)"
      by auto
    have "(find_inner_layers ix key \<bind>
              (\<lambda>offset_range. if fst offset_range = snd offset_range
                 then Some (to_size_t (fst offset_range))
                 else find_internal ix key (fst offset_range) (snd offset_range))) = Some r"
      using fl r N2 by simp
    moreover from rc have "(r = ?N \<and> (\<forall>q < ?N. key_f (?C ! q) \<noteq> key)) \<or>
            (r < ?N \<and> ((\<exists>q < ?N. key_f (?C ! q) = key) \<longrightarrow> key_f (?C ! r) = key))"
      by auto
    ultimately show ?thesis by blast
  next
    case False
    then have L: "0 \<le> ?L" "?L \<noteq> 0" by simp_all
    have root: "node_range ?k ?N 0 0 = (0, int ?N - 1)" by simp
    have occ: "\<forall>q < ?N. key_f (?C ! q) = key \<longrightarrow> 0 \<le> int q \<and> int q \<le> int ?N - 1" by auto
    from descent [OF b L(1) _ root occ]
    obtain r' where d: "find_inner_layers_internal ix key 0 (int ?N - 1) 0 0 0 = Some r'"
      and dr: "descent_result ix key 0 r'" by auto
    have fl: "find_inner_layers ix key = Some r'"
      using find_inner_layers_root [OF L(2) _ bound, of key] d N2 by simp
    from dr show ?thesis unfolding descent_result_def
    proof (elim disjE exE conjE)
      fix l n i
      assume c: "l < ?L" "n < ?k ^ l" "i < ?k - 1"
        and r': "r' = (pivot_position ?k ?N l n i, pivot_position ?k ?N l n i)"
        and pk: "pivot_key ix l n i = key"
      note pb = pivot_position_bounds [OF k N c]
      let ?p = "pivot_position ?k ?N l n i"
      have "(find_inner_layers ix key \<bind>
              (\<lambda>offset_range. if fst offset_range = snd offset_range
                 then Some (to_size_t (fst offset_range))
                 else find_internal ix key (fst offset_range) (snd offset_range))) = Some (nat ?p)"
        using fl r' ts [OF pb(3) pb(4)] by simp
      moreover have "nat ?p < ?N \<and> key_f (?C ! nat ?p) = key"
        using pb pk by (simp add: pivot_key_def)
      ultimately show ?thesis by blast
    next
      fix n
      assume n: "n < ?k ^ ?L" and r': "r' = node_range ?k ?N ?L n"
        and oc: "\<forall>q < ?N. key_f (?C ! q) = key \<longrightarrow> fst r' \<le> int q \<and> int q \<le> snd r'"
      obtain lo' hi' where lh: "r' = (lo', hi')" by (cases r')
      have "range_ok ?k ?N ?L ?L (lo', hi')"
        using range_ok_node [OF k N, of ?L n] n r' lh by simp
      then have b0: "0 \<le> lo'" and eN: "hi' \<le> int ?N - 1" by (simp_all add: range_ok_def)
      show ?thesis
      proof (cases "lo' = hi'")
        case True
        have "(find_inner_layers ix key \<bind>
              (\<lambda>offset_range. if fst offset_range = snd offset_range
                 then Some (to_size_t (fst offset_range))
                 else find_internal ix key (fst offset_range) (snd offset_range))) = Some (nat lo')"
          using fl lh True ts [of lo'] b0 eN by simp
        moreover have "key_f (?C ! nat lo') = key" if "\<exists>q < ?N. key_f (?C ! q) = key"
        proof -
          from that obtain q where q: "q < ?N" "key_f (?C ! q) = key" by blast
          with oc lh True have "int q = lo'" by auto
          then have "nat lo' = q" by simp
          with q show ?thesis by simp
        qed
        moreover have "nat lo' < ?N" using b0 eN True by simp
        ultimately show ?thesis by blast
      next
        case False
        from find_internal_result [OF sz srt bound b0, of hi' key] eN
        obtain r where r: "find_internal ix key lo' hi' = Some r"
          and rc: "(r = ?N \<and> (\<forall>q < ?N. lo' \<le> int q \<and> int q \<le> hi' \<longrightarrow> key_f (?C ! q) \<noteq> key)) \<or>
            (lo' \<le> int r \<and> int r \<le> hi' \<and> r < ?N \<and> key_f (?C ! r) = key)"
          by auto
        have "(find_inner_layers ix key \<bind>
              (\<lambda>offset_range. if fst offset_range = snd offset_range
                 then Some (to_size_t (fst offset_range))
                 else find_internal ix key (fst offset_range) (snd offset_range))) = Some r"
          using fl lh False r by simp
        moreover from rc have "(r = ?N \<and> (\<forall>q < ?N. key_f (?C ! q) \<noteq> key)) \<or>
            (r < ?N \<and> ((\<exists>q < ?N. key_f (?C ! q) = key) \<longrightarrow> key_f (?C ! r) = key))"
        proof
          assume a: "r = ?N \<and> (\<forall>q < ?N. lo' \<le> int q \<and> int q \<le> hi' \<longrightarrow> key_f (?C ! q) \<noteq> key)"
          have "key_f (?C ! q) \<noteq> key" if "q < ?N" for q
          proof
            assume "key_f (?C ! q) = key"
            with oc that lh have "lo' \<le> int q \<and> int q \<le> hi'" by simp
            with a that \<open>key_f (?C ! q) = key\<close> show False by simp
          qed
          with a show ?thesis by simp
        next
          assume "lo' \<le> int r \<and> int r \<le> hi' \<and> r < ?N \<and> key_f (?C ! r) = key"
          then show ?thesis by auto
        qed
        ultimately show ?thesis by blast
      qed
    qed
  qed
qed

lemma built_nonempty:
  fixes ix :: "('k::linorder, 'v) kary_index"
  assumes "built ix"
  shows "size_f ix \<noteq> 0"
proof -
  have "k_f ix ^ num_layers_f ix - 1 < size_f ix" using assms by (simp add: built_def)
  then show ?thesis by simp
qed

lemma find_key_scan:
  fixes ix :: "('k::linorder, 'v) kary_index"
  assumes b: "built ix"
    and lo: "key_f (container_f ix ! 0) \<le> key"
    and hi: "key \<le> key_f (container_f ix ! (size_f ix - 1))"
    and ne: "key_f (container_f ix ! 0) \<noteq> key_f (container_f ix ! (size_f ix - 1))"
  shows "find_key ix key values =
     (find_inner_layers ix key \<bind>
        (\<lambda>offset_range. if fst offset_range = snd offset_range
           then Some (to_size_t (fst offset_range))
           else find_internal ix key (fst offset_range) (snd offset_range))) \<bind>
     (\<lambda>offset_find. if offset_find = size_f ix then Some values
        else container_at ix (int offset_find) \<bind>
          (\<lambda>en. move_left ix key (to_int (int offset_find - 1)) (values @ [value_f en]) \<bind>
             (\<lambda>values1. move_right ix key (to_int (int offset_find + 1)) values1)))"
proof -
  have "key_min_f ix = Some (key_f (container_f ix ! 0))"
    "key_max_f ix = Some (key_f (container_f ix ! (size_f ix - 1)))"
    using b by (simp_all add: built_def)
  moreover note built_nonempty [OF b]
  moreover have "\<not> key > key_f (container_f ix ! (size_f ix - 1))" using hi by simp
  moreover have "\<not> key < key_f (container_f ix ! 0)" using lo by simp
  moreover have "key_f (container_f ix ! (size_f ix - 1)) \<noteq> key_f (container_f ix ! 0)"
    using ne by simp
  ultimately show ?thesis by (simp add: find_key_def)
qed


text \<open>
  With the scan started at a position that holds the key, \<^verbatim>\<open>find\<close> appends the value
  there, then the values of the equal keys before it, nearest first, then those after it.
\<close>

lemma find_key_from_anchor:
  fixes ix :: "('k::linorder, 'v) kary_index"
  assumes b: "built ix"
    and ne: "key_f (container_f ix ! 0) \<noteq> key_f (container_f ix ! (size_f ix - 1))"
    and r: "(find_inner_layers ix key \<bind>
              (\<lambda>offset_range. if fst offset_range = snd offset_range
                 then Some (to_size_t (fst offset_range))
                 else find_internal ix key (fst offset_range) (snd offset_range))) = Some r"
    and rr: "r < size_f ix" and rk: "key_f (container_f ix ! r) = key"
    and X: "X = filter (\<lambda>en. key_f en = key) (container_f ix)"
    and t: "t = r - length (filter (\<lambda>en. key_f en < key) (container_f ix))"
  shows "t < length X \<and> X ! t = container_f ix ! r \<and>
     find_key ix key values =
       Some (values @ map value_f (X ! t # rev (take t X) @ drop (Suc t) X))"
proof -
  let ?N = "size_f ix" and ?C = "container_f ix"
  have sz: "?N = length ?C" and srt: "sorted (map key_f ?C)" and bound: "?N \<le> 2 ^ 30"
    using b by (simp_all add: built_def)
  note N30 = size_int_bound [OF bound]
  have tl: "to_int (int r - 1) = int r - 1" using rr N30 by (intro to_int_id) simp_all
  have tr: "to_int (int r + 1) = int r + 1" using rr N30 by (intro to_int_id) simp_all
  have cb: "length ?C \<le> 2 ^ 30" using bound sz by simp
  have N1: "1 \<le> ?N" using rr by simp
  define A where "A = filter (\<lambda>en. key_f en < key) ?C"
  define B where "B = filter (\<lambda>en. key < key_f en) ?C"
  have C: "?C = A @ X @ B" unfolding A_def B_def X by (rule sorted_split_key [OF srt])
  have XK: "\<forall>x \<in> set X. key_f x = key" unfolding X by simp
  have AK: "\<forall>x \<in> set A. key_f x < key" unfolding A_def by simp
  have BK: "\<forall>x \<in> set B. key < key_f x" unfolding B_def by simp
  have Al: "A \<noteq> [] \<longrightarrow> key_f (last A) \<noteq> key" using AK by (auto dest: last_in_set)
  have Bh: "B \<noteq> [] \<longrightarrow> key_f (hd B) \<noteq> key" using BK by (auto dest: hd_in_set)
  have mono: "key_f (?C ! a) \<le> key_f (?C ! c)" if "a \<le> c" "c < ?N" for a c
    using sorted_nth_mono [OF srt, of a c] that sz by simp
  have a: "r < ?N" using rr by simp
  have lo: "key_f (?C ! 0) \<le> key" using mono [of 0 "r"] a rk by simp
  have hi: "key \<le> key_f (?C ! (?N - 1))" using mono [of "r" "?N - 1"] a rk by simp
  have n1: "\<not> r < length A"
  proof
    assume "r < length A"
    then have "?C ! r \<in> set A" using C by (simp add: nth_append)
    with AK rk show False by auto
  qed
  have n2: "\<not> r \<ge> length A + length X"
  proof
    assume ge: "r \<ge> length A + length X"
    then have "\<not> r < length A" "\<not> r - length A < length X" by simp_all
    then have "?C ! r = B ! (r - length A - length X)" using C by (simp add: nth_append)
    moreover have "r - length A - length X < length B" using a ge C sz by simp
    ultimately have "?C ! r \<in> set B" by simp
    with BK rk show False by auto
  qed
  have tA: "t = r - length A" by (simp add: t A_def)
  have t1: "t < length X" and t2: "r = length A + t" using n1 n2 unfolding tA by arith+
  have t3: "?C ! r = X ! t" using C t1 t2 by (simp add: nth_append)
  have r_eq: "int r = int (length A + t)" using t2 by simp
  have at: "container_at ix (int r) = Some (X ! t)"
    using rr sz t3 by (simp add: container_at_def)
  have ml: "move_left ix key (int r - 1) (values @ [value_f (X ! t)]) =
      Some ((values @ [value_f (X ! t)]) @ map value_f (rev (take t X)))"
    unfolding r_eq using t1 by (intro move_left_run [OF C XK Al cb]) simp
  have "move_right ix key (int (length A + Suc t)) ((values @ [value_f (X ! t)]) @ map value_f (rev (take t X))) =
      Some (((values @ [value_f (X ! t)]) @ map value_f (rev (take t X))) @ map value_f (drop (Suc t) X))"
    using t1 by (intro move_right_run [OF C sz XK Bh bound N1]) simp
  moreover have "int (length A + Suc t) = int r + 1" using r_eq by simp
  ultimately have mr: "move_right ix key (int r + 1) ((values @ [value_f (X ! t)]) @ map value_f (rev (take t X))) =
      Some (((values @ [value_f (X ! t)]) @ map value_f (rev (take t X))) @ map value_f (drop (Suc t) X))"
    by (simp only:)
  have "find_key ix key values =
      Some (values @ map value_f (X ! t # rev (take t X) @ drop (Suc t) X))"
    unfolding find_key_scan [OF b lo hi ne] r using rr at ml mr by (simp add: tl tr)
  with t1 t3 show ?thesis by simp
qed

lemma find_key_present:
  fixes ix :: "('k::linorder, 'v) kary_index"
  assumes b: "built ix"
    and X: "X = filter (\<lambda>en. key_f en = key) (container_f ix)" and Xne: "X \<noteq> []"
  shows "\<exists>t < length X. find_key ix key values =
     Some (values @ map value_f (X ! t # rev (take t X) @ drop (Suc t) X))"
proof -
  let ?N = "size_f ix" and ?C = "container_f ix"
  note N0 = built_nonempty [OF b]
  have sz: "?N = length ?C"
    and kmin: "key_min_f ix = Some (key_f (?C ! 0))"
    and kmax: "key_max_f ix = Some (key_f (?C ! (?N - 1)))"
    and srt: "sorted (map key_f ?C)"
    using b by (simp_all add: built_def)
  have mono: "key_f (?C ! a) \<le> key_f (?C ! c)" if "a \<le> c" "c < ?N" for a c
    using sorted_nth_mono [OF srt, of a c] that sz by simp
  obtain q where q: "q < ?N" "key_f (?C ! q) = key"
  proof -
    from Xne obtain x where "x \<in> set X" by (cases X) auto
    then have "x \<in> set ?C" "key_f x = key" unfolding X by auto
    then obtain q where "q < length ?C" "?C ! q = x" by (auto simp: in_set_conv_nth)
    with \<open>key_f x = key\<close> sz show ?thesis by (intro that [of q]) auto
  qed
  have lo: "key_f (?C ! 0) \<le> key" using mono [of 0 q] q by simp
  have hi: "key \<le> key_f (?C ! (?N - 1))" using mono [of q "?N - 1"] q by simp
  show ?thesis
  proof (cases "key_f (?C ! (?N - 1)) = key_f (?C ! 0)")
    case True
    with lo hi have keq: "key_f (?C ! (?N - 1)) = key" by simp
    have "key_f x = key" if "x \<in> set ?C" for x
    proof -
      from that obtain a where a: "a < ?N" "?C ! a = x" using sz by (auto simp: in_set_conv_nth)
      have "key_f (?C ! 0) \<le> key_f x" using mono [of 0 a] a by simp
      moreover have "key_f x \<le> key_f (?C ! (?N - 1))" using mono [of a "?N - 1"] a by simp
      ultimately show ?thesis using True keq by simp
    qed
    then have XC: "X = ?C" unfolding X by (simp add: filter_id_conv)
    have "push_all ix 0 values = Some (values @ map value_f (drop 0 ?C))"
      by (rule push_all_result [OF sz]) simp
    then have "find_key ix key values = Some (values @ map value_f X)"
      using True keq N0 kmin kmax XC by (simp add: find_key_def)
    moreover have "X = X ! 0 # rev (take 0 X) @ drop (Suc 0) X"
      using Xne by (cases X) auto
    ultimately have "find_key ix key values =
        Some (values @ map value_f (X ! 0 # rev (take 0 X) @ drop (Suc 0) X))" by simp
    moreover have "0 < length X" using Xne by simp
    ultimately show ?thesis by blast
  next
    case False
    then have ne: "key_f (?C ! 0) \<noteq> key_f (?C ! (?N - 1))" by simp
    from anchor_result [OF b lo hi ne] q
    obtain r where r: "(find_inner_layers ix key \<bind>
              (\<lambda>offset_range. if fst offset_range = snd offset_range
                 then Some (to_size_t (fst offset_range))
                 else find_internal ix key (fst offset_range) (snd offset_range))) = Some r"
      and rr: "r < ?N" and rk: "key_f (?C ! r) = key" by blast
    from find_key_from_anchor [OF b ne r rr rk X refl, of "values"] show ?thesis by blast
  qed
qed












section \<open>Properties\<close>

subsection \<open>A key that is absent\<close>

text \<open>
  C2. \<^verbatim>\<open>find\<close> is to append exactly the values of the tuples whose key is the searched
  key, and nothing for an absent key. On the index built over the keys 1, 3, 5, 7 with
  fanout 2 and two layers the descent for the absent key 6 ends in the leaf range
  \<open>(3, 3)\<close>; \<^verbatim>\<open>find\<close> takes a range with equal ends for a pivot hit and appends the
  value at position 3, which belongs to key 7, without comparing the key.
\<close>

theorem find_key_absent_key_appends:
  "build_index table_1357 2 2 = Done (index_1357 2 [Some 3, Some 1, Some 5])
   \<and> 6 \<notin> key_f ` set (container_f (index_1357 2 [Some 3, Some 1, Some 5]))
   \<and> find_inner_layers (index_1357 2 [Some 3, Some 1, Some 5]) 6 = Some (3, 3)
   \<and> find_key (index_1357 2 [Some 3, Some 1, Some 5]) 6 [] = Some [70]"
  by code_simp

subsection \<open>Range lookup\<close>

text \<open>
  C3. \<^verbatim>\<open>find_range(lhs, rhs)\<close> is to emit the values of every tuple whose key lies in
  the range. The function body ends after the two early returns: on scenario S2,
  \<^verbatim>\<open>find_range(5, 9)\<close> leaves the output empty.
\<close>

theorem find_range_emits_nothing:
  "build_index table_s2 2 3 = Done index_s2 \<and> find_range index_s2 5 9 [] = Done []"
  by code_simp

subsection \<open>Layered search against binary search\<close>

text \<open>
  C4. With any fanout and layer count over the same snapshot \<^verbatim>\<open>find\<close> is to return
  the same multiset as with no layers. Over the keys 1, 3, 5, 7 and for the absent
  key 6, two layers return the value of key 7 and no layers return nothing.
\<close>

theorem find_key_layers_differ:
  "build_index table_1357 2 2 = Done (index_1357 2 [Some 3, Some 1, Some 5])
   \<and> build_index table_1357 0 2 = Done (index_1357 0 [])
   \<and> map_option mset (find_key (index_1357 2 [Some 3, Some 1, Some 5]) 6 []) = Some {#70#}
   \<and> map_option mset (find_key (index_1357 0 []) 6 []) = Some {#}"
  by code_simp

subsection \<open>No layers\<close>

text \<open>
  C9. With no layers the descent is to return the leaf range from 0 to N - 1. The code
  returns the pair \<open>(0, N)\<close>, and \<^verbatim>\<open>find_internal\<close>, whose end offset is
  inclusive, starts from that pair: over four entries the range is \<open>(0, 4)\<close>.
\<close>

theorem find_inner_layers_no_layers:
  "build_index table_1357 0 2 = Done (index_1357 0 [])
   \<and> size_f (index_1357 0 []) = 4
   \<and> find_inner_layers (index_1357 0 []) 3 = Some (0, 4)
   \<and> find_inner_layers (index_1357 0 []) 3 \<noteq> Some (0, int (size_f (index_1357 0 [])) - 1)"
  by code_simp

subsection \<open>The configuration error of reorganize\<close>

text \<open>
  C6, as stated: when \<open>k^L - 1 \<ge> N\<close> the index state is left unchanged. On a new
  index with one layer and fanout 2 over a table of one tuple the assertion fails, and
  the snapshot and the size have been replaced by then.
\<close>

theorem reorganize_error_changes_snapshot:
  "reorganize index_one_tuple =
     AssertFailed ''exceed maximum layers''
       (index_one_tuple\<lparr>container_f := [Entry 1 10], size_f := 1\<rparr>)
   \<and> container_f (index_one_tuple\<lparr>container_f := [Entry 1 10], size_f := 1\<rparr>)
       \<noteq> container_f index_one_tuple
   \<and> size_f (index_one_tuple\<lparr>container_f := [Entry 1 10], size_f := 1\<rparr>)
       \<noteq> size_f index_one_tuple"
  by (simp add: reorganize_def base_reorganize_def pow_minus_1_def index_one_tuple_def)

text \<open>
  C6, amended: when \<open>k^L - 1 \<ge> N\<close>, with \<open>N\<close> the number of tuples in the table,
  \<open>k \<ge> 2\<close> and \<open>k^L\<close> at most \<open>2^53\<close> (so that \<^verbatim>\<open>std::pow(k_, num_layers_) - 1\<close> is
  the exact value), the assertion "exceed maximum layers" fails after
  \<^verbatim>\<open>base_reorganize\<close> has replaced the snapshot and the size; the inner-node array, the
  least and the greatest key and the configuration are as they were.
\<close>

theorem reorganize_error_state:
  assumes "k_f ix \<ge> 2" and "k_f ix ^ num_layers_f ix \<le> 2 ^ 53"
    and "\<not> k_f ix ^ num_layers_f ix - 1 < length (table_f ix)"
  shows "reorganize ix =
           AssertFailed ''exceed maximum layers''
             (ix\<lparr>container_f := sort_key key_f (table_f ix), size_f := length (table_f ix)\<rparr>)"
proof -
  have "int (k_f ix ^ num_layers_f ix) \<le> int (2 ^ 53)"
    using assms(2) by (simp only: of_nat_le_iff)
  then have "int (k_f ix ^ num_layers_f ix) \<le> 2 ^ 53" by simp
  moreover have "1 \<le> k_f ix ^ num_layers_f ix" using assms(1) by simp
  ultimately have "pow_minus_1 (k_f ix) (num_layers_f ix) = Some (k_f ix ^ num_layers_f ix - 1)"
    by (simp add: pow_minus_1_def)
  then show ?thesis using assms(3) by (simp add: reorganize_def base_reorganize_def Let_def)
qed

theorem reorganize_error_state_witness:
  "k_f index_one_tuple \<ge> 2
   \<and> k_f index_one_tuple ^ num_layers_f index_one_tuple \<le> 2 ^ 53
   \<and> \<not> k_f index_one_tuple ^ num_layers_f index_one_tuple - 1 < length (table_f index_one_tuple)
   \<and> reorganize index_one_tuple =
       AssertFailed ''exceed maximum layers''
         (index_one_tuple\<lparr>container_f := sort_key key_f (table_f index_one_tuple),
                          size_f := length (table_f index_one_tuple)\<rparr>)"
proof -
  have h1: "k_f index_one_tuple \<ge> 2" by (simp add: index_one_tuple_def)
  have h2: "k_f index_one_tuple ^ num_layers_f index_one_tuple \<le> 2 ^ 53"
    by (simp add: index_one_tuple_def)
  have h3: "\<not> k_f index_one_tuple ^ num_layers_f index_one_tuple - 1
             < length (table_f index_one_tuple)"
    by (simp add: index_one_tuple_def)
  note c = reorganize_error_state [OF h1 h2 h3]
  show ?thesis using h1 h2 h3 c by (intro conjI) assumption+
qed

subsection \<open>The pivots after reorganize\<close>




subsection \<open>Rebuilding twice\<close>




subsection \<open>The order in which find emits duplicates\<close>

text \<open>
  C1, as stated: \<^verbatim>\<open>find\<close> emits the values of a duplicated key left to right in the
  snapshot, which is their insertion order, and on scenario S4 \<^verbatim>\<open>find(3)\<close> emits
  1, 3, 5, 7. On S4 the descent ends on the root pivot at position 3, and the code emits
  the value there first, then walks left, then right: 3, 1, 5, 7.
\<close>

theorem find_key_s4_order:
  "reorganize new_s4 = Done index_s4
   \<and> find_key index_s4 3 [] = Some [3, 1, 5, 7]
   \<and> find_key index_s4 3 [] \<noteq> Some [1, 3, 5, 7]"
  by code_simp

text \<open>
  C1, amended: on an index reorganized over a table of at most \<open>2^30\<close> tuples (fanout
  at least 2), for a key that the table holds, with \<open>X\<close> its tuples in insertion order,
  \<^verbatim>\<open>find\<close> appends the values of all of \<open>X\<close>: first the value of one of them, the one
  at which the search ended, then the values of those inserted before it, latest first,
  then the values of those inserted after it in insertion order.
\<close>

theorem find_key_emission_order:
  fixes ix0 :: "('k::linorder, 'v) kary_index"
  assumes "reorganize ix0 = Done ix" and "k_f ix0 \<ge> 2"
    and "length (table_f ix0) \<le> 2 ^ 30"
    and "X = filter (\<lambda>en. key_f en = key) (table_f ix0)" and "X \<noteq> []"
  shows "\<exists>t. t < length X \<and>
     find_key ix key values =
       Some (values @ map value_f (X ! t # rev (take t X) @ drop (Suc t) X))"
proof -
  from reorganize_Done_built [OF assms(1,2,3)]
  have b: "built ix" and c: "container_f ix = sort_key key_f (table_f ix0)" by simp_all
  have "X = filter (\<lambda>en. key_f en = key) (container_f ix)"
    unfolding c assms(4) by (simp add: sort_key_stable)
  from find_key_present [OF b this assms(5), of "values"] show ?thesis by blast
qed

theorem find_key_emission_order_witness:
  "reorganize new_s4 = Done index_s4 \<and> k_f new_s4 \<ge> 2
   \<and> length (table_f new_s4) \<le> 2 ^ 30
   \<and> run_s4 = filter (\<lambda>en. key_f en = 3) (table_f new_s4)
   \<and> run_s4 \<noteq> []
   \<and> (\<exists>t. t < length run_s4 \<and>
        find_key index_s4 3 [] =
          Some ([] @ map value_f (run_s4 ! t # rev (take t run_s4) @ drop (Suc t) run_s4)))"
proof -
  have h1: "reorganize new_s4 = Done index_s4" by code_simp
  have h2: "k_f new_s4 \<ge> 2" by (simp add: new_s4_def)
  have h3: "length (table_f new_s4) \<le> 2 ^ 30" by (simp add: new_s4_def table_s4_def)
  have h4: "run_s4 = filter (\<lambda>en. key_f en = 3) (table_f new_s4)"
    by (simp add: new_s4_def table_s4_def run_s4_def)
  have h5: "run_s4 \<noteq> []" by (simp add: run_s4_def)
  note c = find_key_emission_order [OF h1 h2 h3 h4 h5, of "[]"]
  show ?thesis using h1 h2 h3 h4 h5 c by (intro conjI) assumption+
qed

subsection \<open>A key that equals a pivot\<close>




subsection \<open>find reads inside the arrays\<close>




end
